theory Spec2Isabelle
  imports Main "HOL-Library.Word"
begin

section \<open>TimezoneTranslator: data model\<close>

text \<open>
  The fixed-width integers of the source are words: \<open>uint8_t\<close>, \<open>uint16_t\<close>,
  \<open>uint32_t\<close> and \<open>uint64_t\<close> are read with \<open>unat\<close>/\<open>uint\<close>, the signed
  \<open>int8_t\<close> and \<open>int16_t\<close> fields with \<open>sint\<close>. Operands narrower than \<open>int\<close>
  are promoted before arithmetic; \<open>int\<close> is taken to be at least 32 bits wide
  (ESP8266, ESP32), and such arithmetic is written on \<open>int\<close>/\<open>nat\<close> and converted back
  where the source stores the result.

  A function returns \<open>None\<close> when the source has no defined return value: a read of
  \<open>MONTH_DAYS\<close> outside its twelve entries, or a loop that never leaves.
\<close>

type_synonym u8 = "8 word"
type_synonym i8 = "8 word"
type_synonym u16 = "16 word"
type_synonym i16 = "16 word"
type_synonym u32 = "32 word"
type_synonym u64 = "64 word"

record TimezoneDefinition =
  dst_start_month :: u8
  dst_start_week :: i8
  dst_end_month :: u8
  dst_end_week :: i8
  dst_weekday :: u8
  dst_start_hour :: u8
  dst_end_hour :: u8
  offset_min :: i16
  offset_dst_min :: i16

record DstCache =
  valid_from_ms :: u64
  valid_until_ms :: u64
  current_offset :: i16

record TimeStruct =
  ts_year :: u16
  ts_month :: u8
  ts_day :: u8
  ts_hour :: u8
  ts_minute :: u8
  ts_second :: u8
  ts_ms :: u16
  ts_weekday :: u8

record TimezoneTranslator =
  tz_field :: TimezoneDefinition
  cache_field :: DstCache

definition UNIX_OFFSET_2020 :: u32 where
  "UNIX_OFFSET_2020 = 1577836800"

definition MONTH_DAYS :: "u8 list" where
  "MONTH_DAYS = [31, 28, 31, 30, 31, 30, 31, 31, 30, 31, 30, 31]"

text \<open>\<open>MONTH_DAYS[month - 1]\<close>: the index is computed on \<open>int\<close>; outside \<open>0..11\<close> the read
  is out of the array.\<close>

definition month_days_at :: "u8 \<Rightarrow> u8 option" where
  "month_days_at month =
     (if 1 \<le> unat month \<and> unat month \<le> 12 then Some (MONTH_DAYS ! (unat month - 1)) else None)"

definition empty_cache :: DstCache where
  "empty_cache = \<lparr>valid_from_ms = 0, valid_until_ms = 0, current_offset = 0\<rparr>"

definition constructor :: TimezoneTranslator where
  "constructor =
     \<lparr>tz_field = \<lparr>dst_start_month = 0, dst_start_week = 0, dst_end_month = 0, dst_end_week = 0,
                  dst_weekday = 0, dst_start_hour = 0, dst_end_hour = 0,
                  offset_min = 0, offset_dst_min = 0\<rparr>,
      cache_field = empty_cache\<rparr>"

section \<open>Configuration\<close>

definition setLocalTimezone :: "TimezoneDefinition \<Rightarrow> TimezoneTranslator \<Rightarrow> bool \<times> TimezoneTranslator" where
  "setLocalTimezone tz self =
     (if dst_start_month tz > 12 \<or> dst_end_month tz > 12 then (False, self)
      else if dst_start_month tz \<noteq> 0 \<and> dst_end_month tz = 0 then (False, self)
      else (True, self\<lparr>tz_field := tz, cache_field := empty_cache\<rparr>))"

section \<open>32-bit rollover normalization\<close>

definition normalize32 :: "u32 \<Rightarrow> u64" where
  "normalize32 utcSec =
     (if utcSec < UNIX_OFFSET_2020 then (ucast utcSec + 4294967296) * 1000
      else ucast utcSec * 1000)"

section \<open>Calendar arithmetic\<close>

definition isLeapYear :: "u16 \<Rightarrow> i8" where
  "isLeapYear year =
     (if unat year mod 400 = 0 then 1
      else if unat year mod 100 = 0 then 0
      else if unat year mod 4 = 0 then 1
      else 0)"

definition getDaysInMonth :: "u8 \<Rightarrow> u16 \<Rightarrow> u8" where
  "getDaysInMonth month year =
     (if month < 1 \<or> month > 12 then 0
      else if isLeapYear year \<noteq> 0 \<and> month = 2 then 29
      else MONTH_DAYS ! (unat month - 1))"

definition getWeekdayFromDays :: "u32 \<Rightarrow> u8" where
  "getWeekdayFromDays daysSinceEpoch = ucast ((daysSinceEpoch + 4) mod 7)"

definition getWeekday :: "u64 \<Rightarrow> u8" where
  "getWeekday utcMs = getWeekdayFromDays (ucast (utcMs div 86400000))"

text \<open>The closed-form leap count shared by \<open>dateToDays\<close>, \<open>toTimeStruct\<close> and
  \<open>yearFromDays\<close>, on \<open>uint32_t\<close>.\<close>

definition leaps_of :: "u32 \<Rightarrow> u32" where
  "leaps_of years = (years + 1) div 4 - (years + 69) div 100 + (years + 369) div 400"

text \<open>The month loop of \<open>dateToDays\<close>: \<open>for (m = 1; m < month; m++)\<close>.\<close>

function dateToDays_loop :: "u16 \<Rightarrow> u8 \<Rightarrow> u8 \<Rightarrow> u32 \<Rightarrow> u32 option" where
  "dateToDays_loop year month m days =
     (if m < month then
        (case month_days_at m of
           None \<Rightarrow> None
         | Some md \<Rightarrow>
             dateToDays_loop year month (m + 1)
               (if m = 2 \<and> isLeapYear year \<noteq> 0 then days + ucast md + 1 else days + ucast md))
      else Some days)"
  by pat_completeness auto
termination
proof (relation "measure (\<lambda>(year, month, m, days). unat month - unat m)", goal_cases)
  case 1
  show ?case by simp
next
  case (2 year month m days md)
  from \<open>m < month\<close> have "unat m < unat month" and "unat (m + 1) = unat m + 1"
    by unat_arith+
  then show ?case by simp
qed

declare dateToDays_loop.simps [simp del]

definition dateToDays :: "u16 \<Rightarrow> u8 \<Rightarrow> u8 \<Rightarrow> u32 option" where
  "dateToDays year month day =
     (let years = ucast year - 1970;
          days = years * 365 + leaps_of years
      in case dateToDays_loop year month 1 days of
           None \<Rightarrow> None
         | Some days' \<Rightarrow> Some (days' + (ucast day - 1)))"

definition dateToMs :: "u16 \<Rightarrow> u8 \<Rightarrow> u8 \<Rightarrow> u8 \<Rightarrow> u8 \<Rightarrow> u8 \<Rightarrow> u64 option" where
  "dateToMs year month day hour minute second =
     (case dateToDays year month day of
        None \<Rightarrow> None
      | Some d \<Rightarrow>
          Some (ucast d * 86400000
                + ucast ((ucast hour :: u32) * 3600000)
                + ucast ((ucast minute :: u32) * 60000)
                + ucast ((ucast second :: u32) * 1000)))"

definition yearFromDays_mid :: "u16 \<Rightarrow> u16 \<Rightarrow> u16" where
  "yearFromDays_mid lo hi = of_nat (unat lo + (unat hi - unat lo) div 2)"

text \<open>The binary search of \<open>yearFromDays\<close>: \<open>while (lo < hi)\<close>.\<close>

function yearFromDays_loop :: "u16 \<Rightarrow> u16 \<Rightarrow> u32 \<Rightarrow> u16" where
  "yearFromDays_loop lo hi days =
     (if lo < hi then
        (if (ucast (yearFromDays_mid lo hi) - 1970) * 365
              + leaps_of (ucast (yearFromDays_mid lo hi) - 1970) > days
         then yearFromDays_loop lo (yearFromDays_mid lo hi) days
         else yearFromDays_loop (yearFromDays_mid lo hi + 1) hi days)
      else lo)"
  by pat_completeness auto
termination
proof -
  have mid: "unat (yearFromDays_mid lo hi) = unat lo + (unat hi - unat lo) div 2
             \<and> unat (yearFromDays_mid lo hi + 1) = unat lo + (unat hi - unat lo) div 2 + 1
             \<and> unat lo < unat hi"
    if "lo < hi" for lo hi :: u16
  proof -
    have lt: "unat lo < unat hi" using that by (simp add: word_less_nat_alt)
    have hi: "unat hi < 65536" using unsigned_less [of hi] by simp
    have "unat lo + (unat hi - unat lo) div 2 < 65536" using lt hi by linarith
    then have m: "unat (yearFromDays_mid lo hi) = unat lo + (unat hi - unat lo) div 2"
      unfolding yearFromDays_mid_def by (simp only: unat_of_nat) simp
    have "unat (yearFromDays_mid lo hi) + 1 < 65536" using lt hi m by linarith
    then have "unat (yearFromDays_mid lo hi + 1) = unat (yearFromDays_mid lo hi) + 1"
      by (simp add: unat_word_ariths)
    with m lt show ?thesis by simp
  qed
  show ?thesis
  proof (relation "measure (\<lambda>(lo, hi, days). unat hi - unat lo)", goal_cases)
    case 1
    show ?case by simp
  next
    case (2 lo hi days)
    then show ?case using mid [of lo hi] by simp
  next
    case (3 lo hi days)
    then show ?case using mid [of lo hi] by simp linarith
  qed
qed

declare yearFromDays_loop.simps [simp del]

definition yearFromDays :: "u32 \<Rightarrow> u16" where
  "yearFromDays days = yearFromDays_loop 1971 2501 days - 1"

definition yearFromMs :: "u64 \<Rightarrow> u16" where
  "yearFromMs utcMs = yearFromDays (ucast (utcMs div 86400000))"

text \<open>The month loop of \<open>toTimeStruct\<close>; the loop condition reads \<open>MONTH_DAYS[month - 1]\<close>
  before every test.\<close>

function toTimeStruct_loop :: "u16 \<Rightarrow> u8 \<Rightarrow> u32 \<Rightarrow> (u8 \<times> u32) option" where
  "toTimeStruct_loop year month daysRemaining =
     (case month_days_at month of
        None \<Rightarrow> None
      | Some md \<Rightarrow>
          if daysRemaining \<ge> ucast md then
            (if daysRemaining \<ge> (if month = 2 \<and> isLeapYear year \<noteq> 0 then 29 else ucast md)
             then toTimeStruct_loop year (month + 1)
                    (daysRemaining - (if month = 2 \<and> isLeapYear year \<noteq> 0 then 29 else ucast md))
             else Some (month, daysRemaining))
          else Some (month, daysRemaining))"
  by pat_completeness auto
termination
proof (relation "measure (\<lambda>(year, month, daysRemaining). 13 - unat month)", goal_cases)
  case 1
  show ?case by simp
next
  case (2 year month daysRemaining md)
  from \<open>month_days_at month = Some md\<close> have le: "unat month \<le> 12"
    by (simp add: month_days_at_def split: if_splits)
  then have "unat month + 1 < 256" by simp
  then have "unat (month + 1) = unat month + 1"
    by (simp add: unat_word_ariths)
  with le show ?case by simp
qed

declare toTimeStruct_loop.simps [simp del]

text \<open>\<open>toTimeStruct\<close> with a destination that is not null: the value written to \<open>*dest\<close>.
  (With a null destination the source returns at once and writes nothing.)\<close>

definition toTimeStruct :: "u64 \<Rightarrow> TimeStruct option" where
  "toTimeStruct utcMs =
     (let daysSinceEpoch = (ucast (utcMs div 86400000) :: u32);
          remainderMs = (ucast (utcMs - ucast daysSinceEpoch * 86400000) :: u32);
          remainderSec = remainderMs div 1000;
          year = yearFromDays daysSinceEpoch;
          yearOffset = (ucast year - 1970 :: u32);
          leaps = leaps_of yearOffset;
          daysRemaining = daysSinceEpoch - (yearOffset * 365 + leaps)
      in case toTimeStruct_loop year 1 daysRemaining of
           None \<Rightarrow> None
         | Some (month, daysRemaining') \<Rightarrow>
             Some \<lparr>ts_year = year,
                   ts_month = month,
                   ts_day = ucast (daysRemaining' + 1),
                   ts_hour = ucast (remainderSec div 3600),
                   ts_minute = ucast ((remainderSec div 60) mod 60),
                   ts_second = ucast (remainderSec mod 60),
                   ts_ms = ucast (remainderMs mod 1000),
                   ts_weekday = getWeekdayFromDays daysSinceEpoch\<rparr>)"

section \<open>DST switch day\<close>

text \<open>
  The two weekday scans of \<open>getDstSwitchDay\<close>. Neither loop has a bound of its own, so
  each is a partial function: \<open>None\<close> is the scan that never reaches the weekday. The
  last argument counts the executions of the loop body; it is not a variable of the
  source and \<open>getDstSwitchDay\<close> drops it.
\<close>

partial_function (option) forward_scan :: "u8 \<Rightarrow> u8 \<Rightarrow> u8 \<Rightarrow> nat \<Rightarrow> (u8 \<times> nat) option" where
  "forward_scan weekday switchDay wd n =
     (if wd \<noteq> weekday
      then forward_scan weekday (switchDay + 1) (of_nat ((unat wd + 1) mod 7)) (n + 1)
      else Some (switchDay, n))"

partial_function (option) backward_scan :: "u8 \<Rightarrow> u8 \<Rightarrow> u8 \<Rightarrow> nat \<Rightarrow> (u8 \<times> nat) option" where
  "backward_scan weekday switchDay lastWeekday n =
     (if lastWeekday \<noteq> weekday
      then backward_scan weekday (switchDay - 1)
             (if lastWeekday = 0 then 6 else lastWeekday - 1) (n + 1)
      else Some (switchDay, n))"

declare forward_scan.simps [code]
declare backward_scan.simps [code]

text \<open>C++ \<open>%\<close> on \<open>int\<close> truncates towards zero.\<close>

definition c_rem :: "int \<Rightarrow> int \<Rightarrow> int" where
  "c_rem a b = (if a < 0 then - ((- a) mod b) else a mod b)"

text \<open>\<open>getDstSwitchDay\<close> with the iteration count of the scan it ran.\<close>

definition getDstSwitchDay_counted ::
    "u16 \<Rightarrow> u8 \<Rightarrow> TimezoneDefinition \<Rightarrow> bool \<Rightarrow> (u8 \<times> nat) option" where
  "getDstSwitchDay_counted year month tz isStart =
     (let targetWeek = (if isStart then dst_start_week tz else dst_end_week tz)
      in case dateToDays year month 1 of
           None \<Rightarrow> None
         | Some d \<Rightarrow>
             (let firstWeekday = getWeekdayFromDays d
              in if sint targetWeek > 0 then
                   (case forward_scan (dst_weekday tz) 1 firstWeekday 0 of
                      None \<Rightarrow> None
                    | Some (switchDay, n) \<Rightarrow>
                        Some (word_of_int (uint switchDay + 7 * (sint targetWeek - 1)), n))
                 else
                   (let daysInM = getDaysInMonth month year;
                        lastWeekday =
                          (word_of_int (c_rem (uint firstWeekday + uint daysInM - 1) 7) :: u8)
                    in backward_scan (dst_weekday tz) daysInM lastWeekday 0)))"

definition getDstSwitchDay :: "u16 \<Rightarrow> u8 \<Rightarrow> TimezoneDefinition \<Rightarrow> bool \<Rightarrow> u8 option" where
  "getDstSwitchDay year month tz isStart =
     map_option fst (getDstSwitchDay_counted year month tz isStart)"

section \<open>DST transitions of a year\<close>

text \<open>\<open>(int64_t)offset * 60000LL\<close>, converted to \<open>uint64_t\<close> by the mixed arithmetic.\<close>

definition offset_ms :: "i16 \<Rightarrow> u64" where
  "offset_ms offsetMin = word_of_int (sint offsetMin * 60000)"

definition computeDstStartMs :: "u16 \<Rightarrow> TimezoneDefinition \<Rightarrow> u64 option" where
  "computeDstStartMs year tz =
     (case getDstSwitchDay year (dst_start_month tz) tz True of
        None \<Rightarrow> None
      | Some startDay \<Rightarrow>
          (case dateToMs year (dst_start_month tz) startDay (dst_start_hour tz) 0 0 of
             None \<Rightarrow> None
           | Some startLocal \<Rightarrow> Some (startLocal - offset_ms (offset_min tz))))"

definition computeDstEndMs :: "u16 \<Rightarrow> TimezoneDefinition \<Rightarrow> u64 option" where
  "computeDstEndMs year tz =
     (case getDstSwitchDay year (dst_end_month tz) tz False of
        None \<Rightarrow> None
      | Some endDay \<Rightarrow>
          (case dateToMs year (dst_end_month tz) endDay (dst_end_hour tz) 0 0 of
             None \<Rightarrow> None
           | Some endLocal \<Rightarrow> Some (endLocal - offset_ms (offset_dst_min tz))))"

definition computeDstTransitions :: "u16 \<Rightarrow> TimezoneDefinition \<Rightarrow> (u64 \<times> u64) option" where
  "computeDstTransitions year tz =
     (case computeDstStartMs year tz of
        None \<Rightarrow> None
      | Some outStartMs \<Rightarrow>
          (case computeDstEndMs year tz of
             None \<Rightarrow> None
           | Some outEndMs \<Rightarrow> Some (outStartMs, outEndMs)))"

section \<open>Offset resolver\<close>

definition mk_cache :: "u64 \<Rightarrow> u64 \<Rightarrow> i16 \<Rightarrow> DstCache" where
  "mk_cache a b x = \<lparr>valid_from_ms = a, valid_until_ms = b, current_offset = x\<rparr>"

text \<open>The hit test, \<open>ms >= cache.valid_from_ms && ms < cache.valid_until_ms\<close>.\<close>

definition cache_hit :: "u64 \<Rightarrow> DstCache \<Rightarrow> bool" where
  "cache_hit ms cache = (ms \<ge> valid_from_ms cache \<and> ms < valid_until_ms cache)"

text \<open>
  The miss path, written twice in the source with the same text (in \<open>getOffsetForUtc\<close> on
  \<open>utcMs\<close>, in \<open>getOffsetForLocal\<close> on \<open>approxUtc\<close>): the year of the instant, the two
  transitions of that year and the cache of the period that holds the instant. It
  returns the two transitions with the new cache.
\<close>

definition cache_miss :: "u64 \<Rightarrow> TimezoneDefinition \<Rightarrow> (u64 \<times> u64 \<times> DstCache) option" where
  "cache_miss ms tz =
     (let year = yearFromMs ms
      in case computeDstTransitions year tz of
           None \<Rightarrow> None
         | Some (dstStartMs, dstEndMs) \<Rightarrow>
             if dstStartMs < dstEndMs then
               (if ms < dstStartMs then
                  map_option (\<lambda>prevEnd. (dstStartMs, dstEndMs, mk_cache prevEnd dstStartMs (offset_min tz)))
                    (computeDstEndMs (year - 1) tz)
                else if ms < dstEndMs then
                  Some (dstStartMs, dstEndMs, mk_cache dstStartMs dstEndMs (offset_dst_min tz))
                else
                  map_option (\<lambda>nextStart. (dstStartMs, dstEndMs, mk_cache dstEndMs nextStart (offset_min tz)))
                    (computeDstStartMs (year + 1) tz))
             else
               (if ms < dstEndMs then
                  map_option (\<lambda>prevStart. (dstStartMs, dstEndMs, mk_cache prevStart dstEndMs (offset_dst_min tz)))
                    (computeDstStartMs (year - 1) tz)
                else if ms < dstStartMs then
                  Some (dstStartMs, dstEndMs, mk_cache dstEndMs dstStartMs (offset_min tz))
                else
                  map_option (\<lambda>nextEnd. (dstStartMs, dstEndMs, mk_cache dstStartMs nextEnd (offset_dst_min tz)))
                    (computeDstEndMs (year + 1) tz)))"

text \<open>Both resolvers return the offset with the cache as the call leaves it.\<close>

definition getOffsetForUtc :: "u64 \<Rightarrow> TimezoneDefinition \<Rightarrow> DstCache \<Rightarrow> (i16 \<times> DstCache) option" where
  "getOffsetForUtc utcMs tz cache =
     (if dst_start_month tz = 0 then Some (offset_min tz, cache)
      else if cache_hit utcMs cache then Some (current_offset cache, cache)
      else case cache_miss utcMs tz of
             None \<Rightarrow> None
           | Some (dstStartMs, dstEndMs, cache') \<Rightarrow> Some (current_offset cache', cache'))"

definition getOffsetForLocal :: "u64 \<Rightarrow> TimezoneDefinition \<Rightarrow> DstCache \<Rightarrow> (i16 \<times> DstCache) option" where
  "getOffsetForLocal localMs tz cache =
     (if dst_start_month tz = 0 then Some (offset_min tz, cache)
      else
        (let approxUtc = localMs - offset_ms (offset_min tz)
         in if cache_hit approxUtc cache then Some (current_offset cache, cache)
            else case cache_miss approxUtc tz of
                   None \<Rightarrow> None
                 | Some (dstStartMs, dstEndMs, cache') \<Rightarrow>
                     (let dstStartLocal = dstStartMs + offset_ms (offset_min tz);
                          dstEndLocal = dstEndMs + offset_ms (offset_dst_min tz)
                      in if dstStartMs < dstEndMs then
                           (if localMs \<ge> dstStartLocal \<and> localMs < dstEndLocal
                            then Some (offset_dst_min tz, cache')
                            else Some (offset_min tz, cache'))
                         else
                           (if localMs \<ge> dstStartLocal \<or> localMs < dstEndLocal
                            then Some (offset_dst_min tz, cache')
                            else Some (offset_min tz, cache')))))"

section \<open>Public conversions\<close>

text \<open>The overloads that take a rule work on a cache of their own, dropped on return.\<close>

definition utcToLocal_tz :: "u64 \<Rightarrow> TimezoneDefinition \<Rightarrow> u64 option" where
  "utcToLocal_tz utcMs tz =
     (if dst_start_month tz = 0 then Some (utcMs + offset_ms (offset_min tz))
      else case getOffsetForUtc utcMs tz empty_cache of
             None \<Rightarrow> None
           | Some (offsetMin, tempCache) \<Rightarrow> Some (utcMs + offset_ms offsetMin))"

definition utcToLocal :: "u64 \<Rightarrow> TimezoneTranslator \<Rightarrow> (u64 \<times> TimezoneTranslator) option" where
  "utcToLocal utcMs self =
     (case getOffsetForUtc utcMs (tz_field self) (cache_field self) of
        None \<Rightarrow> None
      | Some (offsetMin, cache') \<Rightarrow>
          Some (utcMs + offset_ms offsetMin, self\<lparr>cache_field := cache'\<rparr>))"

text \<open>
  The header declares \<open>localToUtc\<close> and \<open>getOffsetForLocal\<close> with a last parameter
  \<open>preferDst\<close>; the bodies in the implementation file do not have it, and nothing in
  them reads it. The model takes the declared parameter and runs the body as written.
\<close>

definition localToUtc_tz :: "u64 \<Rightarrow> TimezoneDefinition \<Rightarrow> bool \<Rightarrow> u64 option" where
  "localToUtc_tz localMs tz preferDst =
     (if dst_start_month tz = 0 then Some (localMs - offset_ms (offset_min tz))
      else case getOffsetForLocal localMs tz empty_cache of
             None \<Rightarrow> None
           | Some (offsetMin, tempCache) \<Rightarrow> Some (localMs - offset_ms offsetMin))"

definition localToUtc :: "u64 \<Rightarrow> TimezoneTranslator \<Rightarrow> bool \<Rightarrow> (u64 \<times> TimezoneTranslator) option" where
  "localToUtc localMs self preferDst =
     (case getOffsetForLocal localMs (tz_field self) (cache_field self) of
        None \<Rightarrow> None
      | Some (offsetMin, cache') \<Rightarrow>
          Some (localMs - offset_ms offsetMin, self\<lparr>cache_field := cache'\<rparr>))"

definition utcToLocal32_tz :: "u32 \<Rightarrow> TimezoneDefinition \<Rightarrow> u64 option" where
  "utcToLocal32_tz utcSec tz = utcToLocal_tz (normalize32 utcSec) tz"

definition localToUtc32_tz :: "u32 \<Rightarrow> TimezoneDefinition \<Rightarrow> bool \<Rightarrow> u64 option" where
  "localToUtc32_tz localSec tz prefer_dst = localToUtc_tz (normalize32 localSec) tz prefer_dst"

definition utcToLocal32 :: "u32 \<Rightarrow> TimezoneTranslator \<Rightarrow> (u64 \<times> TimezoneTranslator) option" where
  "utcToLocal32 utcSec self = utcToLocal (normalize32 utcSec) self"

definition localToUtc32 :: "u32 \<Rightarrow> TimezoneTranslator \<Rightarrow> bool \<Rightarrow> (u64 \<times> TimezoneTranslator) option" where
  "localToUtc32 localSec self prefer_dst = localToUtc (normalize32 localSec) self prefer_dst"

section \<open>The rules of the header's examples\<close>

definition tdEST :: TimezoneDefinition where
  "tdEST = \<lparr>dst_start_month = 3, dst_start_week = 2, dst_end_month = 11, dst_end_week = 1,
             dst_weekday = 0, dst_start_hour = 2, dst_end_hour = 2,
             offset_min = word_of_int (- 300), offset_dst_min = word_of_int (- 240)\<rparr>"

definition tdAEST :: TimezoneDefinition where
  "tdAEST = \<lparr>dst_start_month = 10, dst_start_week = 1, dst_end_month = 4, dst_end_week = 1,
              dst_weekday = 0, dst_start_hour = 2, dst_end_hour = 3,
              offset_min = 600, offset_dst_min = 660\<rparr>"

definition tdIST :: TimezoneDefinition where
  "tdIST = \<lparr>dst_start_month = 0, dst_start_week = 0, dst_end_month = 0, dst_end_week = 0,
             dst_weekday = 0, dst_start_hour = 0, dst_end_hour = 0,
             offset_min = 330, offset_dst_min = 330\<rparr>"





section \<open>The rule invariant in the words of the specification\<close>

text \<open>
  The specification's data model: if the start month is 0 the end month must be 0; if
  the start month is not 0, both months lie in \<open>1..12\<close> and the end month is not 0.
  This predicate follows those words; \<open>setLocalTimezone\<close> above follows the source.
\<close>

definition rule_invariant_spec :: "TimezoneDefinition \<Rightarrow> bool" where
  "rule_invariant_spec tz =
     (if dst_start_month tz = 0 then dst_end_month tz = 0
      else 1 \<le> dst_start_month tz \<and> dst_start_month tz \<le> 12
           \<and> 1 \<le> dst_end_month tz \<and> dst_end_month tz \<le> 12 \<and> dst_end_month tz \<noteq> 0)"

section \<open>The DST period between two transitions\<close>


section \<open>Calendar reference functions\<close>

text \<open>
  Functions on natural numbers used to state what the calendar code computes:
  the days from 1970-01-01 to the first day of the year \<open>1970 + n\<close>, the Gregorian
  leap-year rule, and the days of a year that lie before its \<open>m\<close>-th month.
\<close>

definition days_before_year :: "nat \<Rightarrow> nat" where
  "days_before_year n = n * 365 + (n + 1) div 4 - (n + 69) div 100 + (n + 369) div 400"

definition leap_nat :: "nat \<Rightarrow> bool" where
  "leap_nat y = (y mod 400 = 0 \<or> (y mod 100 \<noteq> 0 \<and> y mod 4 = 0))"

primrec days_before_month :: "u16 \<Rightarrow> nat \<Rightarrow> nat" where
  "days_before_month year 0 = 0"
| "days_before_month year (Suc k) =
     (if k = 0 then 0 else days_before_month year k + unat (getDaysInMonth (of_nat k) year))"

section \<open>Evaluation on the rules of the header\<close>

lemmas cal_eval = dateToDays_def leaps_of_def dateToDays_loop.simps month_days_at_def MONTH_DAYS_def
  isLeapYear_def getWeekdayFromDays_def getDaysInMonth_def dateToMs_def Let_def
  yearFromMs_def yearFromDays_def yearFromDays_loop.simps yearFromDays_mid_def

lemmas switch_eval = getDstSwitchDay_def getDstSwitchDay_counted_def c_rem_def

lemmas res_eval = cache_miss_def cache_hit_def mk_cache_def empty_cache_def getOffsetForUtc_def
  getOffsetForLocal_def utcToLocal_tz_def localToUtc_tz_def computeDstTransitions_def Let_def

lemma tdEST_start_2024: "computeDstStartMs 2024 tdEST = Some 1710054000000"
  apply (simp add: computeDstStartMs_def switch_eval tdEST_def cal_eval)
  apply (simp add: forward_scan.simps)
  apply (simp add: cal_eval offset_ms_def)
  done

lemma tdEST_end_2024: "computeDstEndMs 2024 tdEST = Some 1730613600000"
  apply (simp add: computeDstEndMs_def switch_eval tdEST_def cal_eval)
  apply (simp add: forward_scan.simps)
  apply (simp add: cal_eval offset_ms_def)
  done

lemma tdEST_start_2025: "computeDstStartMs 2025 tdEST = Some 1741503600000"
  apply (simp add: computeDstStartMs_def switch_eval tdEST_def cal_eval)
  apply (simp add: forward_scan.simps)
  apply (simp add: cal_eval offset_ms_def)
  done

lemma tdAEST_start_2023: "computeDstStartMs 2023 tdAEST = Some 1696089600000"
  apply (simp add: computeDstStartMs_def switch_eval tdAEST_def cal_eval)
  apply (simp add: forward_scan.simps)
  apply (simp add: cal_eval offset_ms_def)
  done

lemma tdAEST_start_2024: "computeDstStartMs 2024 tdAEST = Some 1728144000000"
  apply (simp add: computeDstStartMs_def switch_eval tdAEST_def cal_eval)
  apply (simp add: forward_scan.simps)
  apply (simp add: cal_eval offset_ms_def)
  done

lemma tdAEST_end_2024: "computeDstEndMs 2024 tdAEST = Some 1712419200000"
  apply (simp add: computeDstEndMs_def switch_eval tdAEST_def cal_eval)
  apply (simp add: forward_scan.simps)
  apply (simp add: cal_eval offset_ms_def)
  done

lemma yearFromMs_jan2024: "yearFromMs 1704067200000 = 2024"
  by (simp add: cal_eval)

lemma yearFromMs_jul2024: "yearFromMs 1719792000000 = 2024"
  by (simp add: cal_eval)

lemma yearFromMs_nov2024: "yearFromMs 1730615400000 = 2024"
  by (simp add: cal_eval)

lemma tdAEST_fields:
  "dst_start_month tdAEST = 10" "offset_min tdAEST = 600" "offset_dst_min tdAEST = 660"
  by (simp_all add: tdAEST_def)

lemma tdEST_fields:
  "dst_start_month tdEST = 3" "offset_min tdEST = word_of_int (- 300)"
  "offset_dst_min tdEST = word_of_int (- 240)"
  by (simp_all add: tdEST_def)

lemma tdAEST_jan2024:
  "getOffsetForUtc 1704067200000 tdAEST empty_cache
     = Some (660, mk_cache 1696089600000 1712419200000 660)"
  by (simp add: res_eval yearFromMs_jan2024 tdAEST_start_2023 tdAEST_start_2024 tdAEST_end_2024
        tdAEST_fields)

lemma tdAEST_jul2024:
  "getOffsetForUtc 1719792000000 tdAEST empty_cache
     = Some (600, mk_cache 1712419200000 1728144000000 600)"
  by (simp add: res_eval yearFromMs_jul2024 tdAEST_start_2024 tdAEST_end_2024 tdAEST_fields)

lemma tdEST_overlap_local: "localToUtc_tz 1730597400000 tdEST p = Some 1730611800000"
  by (simp add: res_eval offset_ms_def yearFromMs_nov2024 tdEST_start_2024 tdEST_end_2024
        tdEST_start_2025 tdEST_fields)

lemma yearFromMs_nov2024_dst: "yearFromMs 1730611800000 = 2024"
  by (simp add: cal_eval)

lemma tdEST_overlap_first_pass: "utcToLocal_tz 1730611800000 tdEST = Some 1730597400000"
  by (simp add: res_eval offset_ms_def yearFromMs_nov2024_dst tdEST_start_2024 tdEST_end_2024
        tdEST_fields)

lemma tdEST_overlap_second_pass: "utcToLocal_tz 1730615400000 tdEST = Some 1730597400000"
  by (simp add: res_eval offset_ms_def yearFromMs_nov2024 tdEST_start_2024 tdEST_end_2024
        tdEST_start_2025 tdEST_fields)

section \<open>The ambiguous hour\<close>

text \<open>
  Claim C1. For a local timestamp inside the fall-back overlap hour, \<open>localToUtc\<close> with
  \<open>preferDst = true\<close> should return the earlier of the two UTC instants and with
  \<open>preferDst = false\<close> the later one. The source does not do so: for the rule \<open>tdEST\<close>
  the local time 2024-11-03 01:30:00 is reached from 05:30 UTC (under DST) and again from
  06:30 UTC (under standard time), and \<open>localToUtc\<close> returns 05:30 UTC for either value
  of \<open>preferDst\<close>, so the two results are equal and not strictly ordered. The same holds
  at every input: the result does not depend on \<open>preferDst\<close>.
\<close>

theorem localToUtc_overlap_ignores_preferDst:
  "dateToMs 2024 11 3 1 30 0 = Some 1730597400000
   \<and> utcToLocal_tz 1730611800000 tdEST = Some 1730597400000
   \<and> utcToLocal_tz 1730615400000 tdEST = Some 1730597400000
   \<and> localToUtc_tz 1730597400000 tdEST True = Some 1730611800000
   \<and> localToUtc_tz 1730597400000 tdEST False = Some 1730611800000
   \<and> \<not> (the (localToUtc_tz 1730597400000 tdEST True)
          < the (localToUtc_tz 1730597400000 tdEST False))
   \<and> localToUtc_tz localMs tz True = localToUtc_tz localMs tz False"
proof -
  have "dateToMs 2024 11 3 1 30 0 = Some 1730597400000"
    by (simp add: cal_eval)
  moreover have "localToUtc_tz localMs tz True = localToUtc_tz localMs tz False"
    by (simp add: localToUtc_tz_def)
  ultimately show ?thesis
    by (simp add: tdEST_overlap_first_pass tdEST_overlap_second_pass tdEST_overlap_local)
qed

section \<open>Configuration\<close>

text \<open>
  Claim C2, as amended. \<open>setLocalTimezone\<close> succeeds exactly when both months are at most
  12 and a start month other than 0 comes with an end month other than 0 (with start
  month 0 any end month up to 12 is accepted). On success the rule is stored and the
  cache is cleared; on failure the translator is returned as it was.
\<close>

theorem setLocalTimezone_accepts:
  "(fst (setLocalTimezone tz self) \<longleftrightarrow>
      dst_start_month tz \<le> 12 \<and> dst_end_month tz \<le> 12
      \<and> (dst_start_month tz = 0 \<or> dst_end_month tz \<noteq> 0))
   \<and> snd (setLocalTimezone tz self) =
       (if fst (setLocalTimezone tz self)
        then self\<lparr>tz_field := tz, cache_field := empty_cache\<rparr> else self)"
  by (auto simp: setLocalTimezone_def not_less)

theorem setLocalTimezone_accepts_witness:
  "fst (setLocalTimezone tdEST constructor)
   \<and> snd (setLocalTimezone tdEST constructor) = \<lparr>tz_field = tdEST, cache_field = empty_cache\<rparr>
   \<and> \<not> fst (setLocalTimezone (tdEST\<lparr>dst_end_month := 0\<rparr>) constructor)
   \<and> snd (setLocalTimezone (tdEST\<lparr>dst_end_month := 0\<rparr>) constructor) = constructor"
  using setLocalTimezone_accepts [of tdEST constructor]
    setLocalTimezone_accepts [of "tdEST\<lparr>dst_end_month := 0\<rparr>" constructor]
  by (simp add: tdEST_def constructor_def)

text \<open>
  Claim C2 as stated fails: a rule with start month 0 and end month 5 breaks the
  invariant of the specification and is accepted.
\<close>

theorem setLocalTimezone_invariant_counterexample:
  "fst (setLocalTimezone (tdIST\<lparr>dst_end_month := 5\<rparr>) constructor)
   \<and> \<not> rule_invariant_spec (tdIST\<lparr>dst_end_month := 5\<rparr>)"
  by (simp add: setLocalTimezone_def rule_invariant_spec_def tdIST_def)

section \<open>The cache of the UTC resolver\<close>

text \<open>
  Claim C5. Let a lookup that misses the cache return offset \<open>x\<close> and leave the cache
  \<open>c'\<close> with interval \<open>[valid_from_ms c', valid_until_ms c')\<close>. Then \<open>x\<close> is the offset
  stored in \<open>c'\<close>; every later lookup with the same rule and an instant inside the
  interval passes the hit test and returns \<open>x\<close> with the cache unchanged; and a lookup
  at \<open>valid_until_ms c'\<close> fails the hit test and returns what the miss path computes.
\<close>

theorem getOffsetForUtc_cache_sound:
  assumes "dst_start_month tz \<noteq> 0"
    and "\<not> cache_hit t c"
    and "getOffsetForUtc t tz c = Some (x, c')"
    and "valid_from_ms c' \<le> t'" and "t' < valid_until_ms c'"
  shows "x = current_offset c'
         \<and> cache_hit t' c'
         \<and> getOffsetForUtc t' tz c' = Some (x, c')
         \<and> \<not> cache_hit (valid_until_ms c') c'
         \<and> getOffsetForUtc (valid_until_ms c') tz c' =
             (case cache_miss (valid_until_ms c') tz of
                None \<Rightarrow> None
              | Some (dstStartMs, dstEndMs, c'') \<Rightarrow> Some (current_offset c'', c''))"
proof -
  from assms(1-3) have x: "x = current_offset c'"
    by (auto simp: getOffsetForUtc_def split: option.splits)
  from assms(4,5) have hit: "cache_hit t' c'"
    by (simp add: cache_hit_def)
  have miss: "\<not> cache_hit (valid_until_ms c') c'"
    by (simp add: cache_hit_def)
  show ?thesis
    using assms(1) x hit miss by (simp add: getOffsetForUtc_def)
qed

theorem getOffsetForUtc_cache_sound_witness:
  "getOffsetForUtc 1704067200000 tdAEST empty_cache
     = Some (660, mk_cache 1696089600000 1712419200000 660)
   \<and> getOffsetForUtc 1700000000000 tdAEST (mk_cache 1696089600000 1712419200000 660)
       = Some (660, mk_cache 1696089600000 1712419200000 660)
   \<and> \<not> cache_hit 1712419200000 (mk_cache 1696089600000 1712419200000 660)"
proof -
  have h1: "dst_start_month tdAEST \<noteq> 0" by (simp add: tdAEST_fields)
  have h2: "\<not> cache_hit 1704067200000 empty_cache"
    by (simp add: cache_hit_def empty_cache_def)
  have h4: "valid_from_ms (mk_cache 1696089600000 1712419200000 660) \<le> 1700000000000"
    by (simp add: mk_cache_def)
  have h5: "1700000000000 < valid_until_ms (mk_cache 1696089600000 1712419200000 660)"
    by (simp add: mk_cache_def)
  show ?thesis
    using getOffsetForUtc_cache_sound [OF h1 h2 tdAEST_jan2024 h4 h5] tdAEST_jan2024
    by (simp add: mk_cache_def)
qed

section \<open>Known transitions\<close>

text \<open>
  Claim C6. For the US Eastern rule \<open>tdEST\<close> (start: March, 2nd Sunday, 02:00, standard
  offset -300; end: November, 1st Sunday, 02:00, DST offset -240) the DST start of 2024
  is 2024-03-10T07:00:00 UTC and the DST end of 2024 is 2024-11-03T06:00:00 UTC: the
  local switch instant 2024-03-10 02:00 less the standard offset, and the local switch
  instant 2024-11-03 02:00 less the DST offset.
\<close>

theorem tdEST_transitions_2024:
  "computeDstStartMs 2024 tdEST = dateToMs 2024 3 10 7 0 0
   \<and> computeDstStartMs 2024 tdEST = Some 1710054000000
   \<and> computeDstEndMs 2024 tdEST = dateToMs 2024 11 3 6 0 0
   \<and> computeDstEndMs 2024 tdEST = Some 1730613600000
   \<and> map_option (\<lambda>l. l - offset_ms (offset_min tdEST)) (dateToMs 2024 3 10 2 0 0)
       = computeDstStartMs 2024 tdEST
   \<and> map_option (\<lambda>l. l - offset_ms (offset_dst_min tdEST)) (dateToMs 2024 11 3 2 0 0)
       = computeDstEndMs 2024 tdEST
   \<and> sint (offset_min tdEST) = - 300 \<and> sint (offset_dst_min tdEST) = - 240"
proof -
  have "dateToMs 2024 3 10 7 0 0 = Some 1710054000000"
    and "dateToMs 2024 11 3 6 0 0 = Some 1730613600000"
    and "dateToMs 2024 3 10 2 0 0 = Some 1710036000000"
    and "dateToMs 2024 11 3 2 0 0 = Some 1730599200000"
    by (simp_all add: cal_eval)
  then show ?thesis
    by (simp add: tdEST_start_2024 tdEST_end_2024 tdEST_fields offset_ms_def)
qed

section \<open>Fixed offsets\<close>

text \<open>
  Claim C8. For a rule without DST (start month 0) and standard offset \<open>O\<close> minutes, and
  every 64-bit timestamp \<open>t\<close>: \<open>utcToLocal\<close> returns \<open>t + O * 60000\<close> and \<open>localToUtc\<close>
  returns \<open>t - O * 60000\<close>, both in the 64-bit unsigned arithmetic of the source (the
  integer value itself where it lies in \<open>0..2^64 - 1\<close>), and each undoes the other.
\<close>

theorem fixed_offset_exact:
  assumes "dst_start_month tz = 0"
  shows "utcToLocal_tz t tz = Some (word_of_int (uint t + sint (offset_min tz) * 60000))
         \<and> localToUtc_tz t tz preferDst
             = Some (word_of_int (uint t - sint (offset_min tz) * 60000))
         \<and> Option.bind (utcToLocal_tz t tz) (\<lambda>l. localToUtc_tz l tz preferDst) = Some t
         \<and> Option.bind (localToUtc_tz t tz preferDst) (\<lambda>u. utcToLocal_tz u tz) = Some t
         \<and> (0 \<le> uint t + sint (offset_min tz) * 60000
              \<and> uint t + sint (offset_min tz) * 60000 < 2 ^ 64
              \<longrightarrow> map_option uint (utcToLocal_tz t tz)
                    = Some (uint t + sint (offset_min tz) * 60000))
         \<and> (0 \<le> uint t - sint (offset_min tz) * 60000
              \<and> uint t - sint (offset_min tz) * 60000 < 2 ^ 64
              \<longrightarrow> map_option uint (localToUtc_tz t tz preferDst)
                    = Some (uint t - sint (offset_min tz) * 60000))"
proof -
  define k where "k = sint (offset_min tz) * 60000"
  have w: "uint (word_of_int j :: u64) = j" if "0 \<le> j" and "j < 2 ^ 64" for j
    using that by (simp add: uint_word_of_int)
  have p: "t + offset_ms (offset_min tz) = word_of_int (uint t + k)"
    and m: "t - offset_ms (offset_min tz) = word_of_int (uint t - k)"
    by (simp_all add: offset_ms_def k_def)
  have u: "utcToLocal_tz t tz = Some (word_of_int (uint t + k))"
    using assms by (simp only: utcToLocal_tz_def p) simp
  have l: "localToUtc_tz t tz preferDst = Some (word_of_int (uint t - k))"
    using assms by (simp only: localToUtc_tz_def m) simp
  have r1: "Option.bind (utcToLocal_tz t tz) (\<lambda>l. localToUtc_tz l tz preferDst) = Some t"
    and r2: "Option.bind (localToUtc_tz t tz preferDst) (\<lambda>u. utcToLocal_tz u tz) = Some t"
    using assms by (simp_all add: utcToLocal_tz_def localToUtc_tz_def)
  have n1: "0 \<le> uint t + k \<and> uint t + k < 2 ^ 64
              \<longrightarrow> map_option uint (utcToLocal_tz t tz) = Some (uint t + k)"
    unfolding u using w [of "uint t + k"] by simp
  have n2: "0 \<le> uint t - k \<and> uint t - k < 2 ^ 64
              \<longrightarrow> map_option uint (localToUtc_tz t tz preferDst) = Some (uint t - k)"
    unfolding l using w [of "uint t - k"] by simp
  from u l r1 r2 n1 n2 show ?thesis
    unfolding k_def by blast
qed

theorem fixed_offset_exact_witness:
  "dst_start_month tdIST = 0
   \<and> utcToLocal_tz 1704067200000 tdIST = Some 1704087000000
   \<and> localToUtc_tz 1704087000000 tdIST True = Some 1704067200000
   \<and> Option.bind (utcToLocal_tz 1704067200000 tdIST) (\<lambda>l. localToUtc_tz l tdIST True)
       = Some 1704067200000"
proof -
  have h: "dst_start_month tdIST = 0" by (simp add: tdIST_def)
  have o: "sint (offset_min tdIST) = 330" by (simp add: tdIST_def)
  show ?thesis
    using fixed_offset_exact [OF h, of 1704067200000 True]
      fixed_offset_exact [OF h, of 1704087000000 True] h o
    by simp
qed

section \<open>The 32-bit extension\<close>

text \<open>
  Claim C9. For every 32-bit seconds value \<open>s\<close>, \<open>normalize32\<close> returns
  \<open>(s + 2^32) * 1000\<close> when \<open>s < 1577836800\<close> and \<open>s * 1000\<close> otherwise, without
  wrap-around; \<open>s = 1000000000\<close> gives \<open>(s + 2^32) * 1000\<close> and \<open>s = 1700000000\<close> gives
  \<open>s * 1000\<close>.
\<close>

theorem normalize32_exact:
  "uint (normalize32 s)
     = (if uint s < 1577836800 then (uint s + 2 ^ 32) * 1000 else uint s * 1000)
   \<and> uint (normalize32 1000000000) = (1000000000 + 2 ^ 32) * 1000
   \<and> uint (normalize32 1700000000) = 1700000000 * 1000"
proof -
  have b: "uint s < 2 ^ 32" using uint_lt2p [of s] by simp
  have u: "uint (ucast s :: u64) = uint s"
    by (simp add: uint_up_ucast is_up)
  have "uint (normalize32 s)
          = (if uint s < 1577836800 then (uint s + 2 ^ 32) * 1000 else uint s * 1000)"
    using b uint_nonnegative [of s]
    by (simp add: normalize32_def UNIX_OFFSET_2020_def word_less_def uint_word_ariths u)
  moreover have "uint (normalize32 1000000000) = (1000000000 + 2 ^ 32) * 1000"
    by (simp add: normalize32_def UNIX_OFFSET_2020_def)
  moreover have "uint (normalize32 1700000000) = 1700000000 * 1000"
    by (simp add: normalize32_def UNIX_OFFSET_2020_def)
  ultimately show ?thesis by simp
qed

theorem normalize32_exact_witness:
  "uint (normalize32 1577836799) = 5872804095000 \<and> uint (normalize32 1577836800) = 1577836800000"
  using normalize32_exact [of 1577836799] normalize32_exact [of 1577836800]
  by simp

section \<open>Termination of the weekday scans\<close>

lemma month_days_at_Some:
  "1 \<le> unat m \<Longrightarrow> unat m \<le> 12 \<Longrightarrow> \<exists>md. month_days_at m = Some md"
  by (simp add: month_days_at_def)

lemma dateToDays_loop_total:
  "1 \<le> unat m \<Longrightarrow> unat month \<le> 13 \<Longrightarrow> \<exists>d. dateToDays_loop year month m days = Some d"
proof (induction year month m days rule: dateToDays_loop.induct)
  case (1 year month m days)
  show ?case
  proof (cases "m < month")
    case False
    then show ?thesis by (simp add: dateToDays_loop.simps)
  next
    case True
    then have lt: "unat m < unat month" by (simp add: word_less_nat_alt)
    with "1.prems" have m12: "unat m \<le> 12" by simp
    then obtain md where md: "month_days_at m = Some md"
      using month_days_at_Some "1.prems"(1) by blast
    have suc: "unat (m + 1) = unat m + 1"
      using m12 by (simp add: unat_word_ariths)
    have "\<exists>d. dateToDays_loop year month (m + 1)
            (if m = 2 \<and> isLeapYear year \<noteq> 0 then days + ucast md + 1 else days + ucast md) = Some d"
      using "1.IH" [OF True md] suc "1.prems"(2) by simp
    then show ?thesis using True md
      by (subst dateToDays_loop.simps) simp
  qed
qed

lemma dateToDays_total:
  "unat month \<le> 13 \<Longrightarrow> \<exists>d. dateToDays year month day = Some d"
  using dateToDays_loop_total [of 1 month year]
  by (auto simp: dateToDays_def Let_def split: option.splits)

lemma getWeekdayFromDays_lt7: "unat (getWeekdayFromDays d) < 7"
proof -
  have "unat ((d + 4) mod 7) < 7"
    by (simp add: unat_mod)
  then show ?thesis
    by (simp add: getWeekdayFromDays_def unsigned_ucast_eq take_bit_eq_mod)
qed

lemma u8_eq_iff: "(a :: u8) = b \<longleftrightarrow> unat a = unat b"
  by (simp add: word_unat_eq_iff)

lemma unat_of_nat_u8: "k < 256 \<Longrightarrow> unat (of_nat k :: u8) = k"
  by (simp only: unat_of_nat) simp

lemma succ_mod7: "(a::nat) < 7 \<Longrightarrow> (a + 1) mod 7 = (if a = 6 then 0 else a + 1)"
  by simp

lemma forward_distance_step: "(w::nat) < 7 \<Longrightarrow> a < 7 \<Longrightarrow> (if a \<le> w then w - a else w + 7 - a) = Suc k \<Longrightarrow>
   a \<noteq> w \<and> (if (a + 1) mod 7 \<le> w then w - (a + 1) mod 7 else w + 7 - (a + 1) mod 7) = k"
  by (simp only: succ_mod7) (auto split: if_splits)

lemma backward_distance_step: "(w::nat) < 7 \<Longrightarrow> a < 7 \<Longrightarrow> (if w \<le> a then a - w else a + 7 - w) = Suc k \<Longrightarrow>
   a \<noteq> w \<and> (if w \<le> (if a = 0 then 6 else a - 1) then (if a = 0 then 6 else a - 1) - w
                else (if a = 0 then 6 else a - 1) + 7 - w) = k"
  by (auto split: if_splits)

lemma forward_scan_steps:
  "unat weekday < 7 \<Longrightarrow> unat wd < 7 \<Longrightarrow>
   (if unat wd \<le> unat weekday then unat weekday - unat wd else unat weekday + 7 - unat wd) = k \<Longrightarrow>
   forward_scan weekday switchDay wd n = Some (switchDay + of_nat k, n + k)"
proof (induction k arbitrary: wd switchDay n)
  case 0
  then have "unat wd = unat weekday" by (simp split: if_splits)
  then have "wd = weekday" by (simp add: u8_eq_iff)
  then show ?case by (subst forward_scan.simps) simp
next
  case (Suc k)
  let ?wd' = "of_nat ((unat wd + 1) mod 7) :: u8"
  have wd': "unat ?wd' = (unat wd + 1) mod 7"
    by (rule unat_of_nat_u8) simp
  then have lt: "unat ?wd' < 7" by simp
  from forward_distance_step [OF Suc.prems]
  have ne: "unat wd \<noteq> unat weekday"
    and k0: "(if (unat wd + 1) mod 7 \<le> unat weekday then unat weekday - (unat wd + 1) mod 7
              else unat weekday + 7 - (unat wd + 1) mod 7) = k"
    by blast+
  have k: "(if unat ?wd' \<le> unat weekday then unat weekday - unat ?wd'
            else unat weekday + 7 - unat ?wd') = k"
    unfolding wd' by (rule k0)
  from ne have ne': "wd \<noteq> weekday" by auto
  have "forward_scan weekday (switchDay + 1) ?wd' (n + 1) = Some (switchDay + 1 + of_nat k, n + 1 + k)"
    by (rule Suc.IH [OF Suc.prems(1) lt k])
  then show ?case using ne'
    by (subst forward_scan.simps) (simp add: add.assoc)
qed

lemma backward_scan_steps:
  "unat weekday < 7 \<Longrightarrow> unat lw < 7 \<Longrightarrow>
   (if unat weekday \<le> unat lw then unat lw - unat weekday else unat lw + 7 - unat weekday) = k \<Longrightarrow>
   backward_scan weekday switchDay lw n = Some (switchDay - of_nat k, n + k)"
proof (induction k arbitrary: lw switchDay n)
  case 0
  then have "unat lw = unat weekday" by (simp split: if_splits)
  then have "lw = weekday" by (simp add: u8_eq_iff)
  then show ?case by (subst backward_scan.simps) simp
next
  case (Suc k)
  let ?lw' = "(if lw = 0 then 6 else lw - 1) :: u8"
  have lw': "unat ?lw' = (if unat lw = 0 then 6 else unat lw - 1)"
  proof (cases "lw = 0")
    case True
    then show ?thesis by simp
  next
    case False
    then have nz: "unat lw \<noteq> 0" by (simp add: unat_eq_zero)
    have "unat (lw - 1) = unat lw - 1"
      by (simp add: unat_minus_one False)
    then show ?thesis using False nz by simp
  qed
  then have lt: "unat ?lw' < 7" using Suc.prems(2) by (simp split: if_splits)
  from backward_distance_step [OF Suc.prems]
  have ne: "unat lw \<noteq> unat weekday"
    and k0: "(if unat weekday \<le> (if unat lw = 0 then 6 else unat lw - 1)
              then (if unat lw = 0 then 6 else unat lw - 1) - unat weekday
              else (if unat lw = 0 then 6 else unat lw - 1) + 7 - unat weekday) = k"
    by blast+
  have k: "(if unat weekday \<le> unat ?lw' then unat ?lw' - unat weekday
            else unat ?lw' + 7 - unat weekday) = k"
    unfolding lw' by (rule k0)
  from ne have ne': "lw \<noteq> weekday" by auto
  have "backward_scan weekday (switchDay - 1) ?lw' (n + 1) = Some (switchDay - 1 - of_nat k, n + 1 + k)"
    by (rule Suc.IH [OF Suc.prems(1) lt k])
  then show ?case using ne'
    by (subst backward_scan.simps) (simp add: algebra_simps)
qed

lemma forward_scan_never:
  assumes "forward_scan weekday switchDay wd n = Some r"
  shows "\<not> (unat wd < 7 \<and> 7 \<le> unat weekday)"
proof (rule forward_scan.raw_induct
    [where P = "\<lambda>weekday switchDay wd n r. \<not> (unat wd < 7 \<and> 7 \<le> unat weekday)", OF _ assms])
  fix f :: "u8 \<Rightarrow> u8 \<Rightarrow> u8 \<Rightarrow> nat \<Rightarrow> (u8 \<times> nat) option"
    and weekday switchDay wd :: u8 and n :: nat and r :: "u8 \<times> nat"
  assume IH: "\<And>weekday switchDay wd n r. f weekday switchDay wd n = Some r \<Longrightarrow>
                \<not> (unat wd < 7 \<and> 7 \<le> unat weekday)"
    and step: "(if wd \<noteq> weekday
                then f weekday (switchDay + 1) (of_nat ((unat wd + 1) mod 7)) (n + 1)
                else Some (switchDay, n)) = Some r"
  show "\<not> (unat wd < 7 \<and> 7 \<le> unat weekday)"
  proof
    assume a: "unat wd < 7 \<and> 7 \<le> unat weekday"
    then have ne: "wd \<noteq> weekday" by auto
    have lt: "unat (of_nat ((unat wd + 1) mod 7) :: u8) < 7"
      by (subst unat_of_nat_u8) simp_all
    from step ne have "f weekday (switchDay + 1) (of_nat ((unat wd + 1) mod 7)) (n + 1) = Some r"
      by simp
    from IH [OF this] lt a show False by simp
  qed
qed

lemma MONTH_DAYS_bounds: "i < 12 \<Longrightarrow> 28 \<le> unat (MONTH_DAYS ! i) \<and> unat (MONTH_DAYS ! i) \<le> 31"
  unfolding MONTH_DAYS_def by (simp add: nth_Cons split: nat.splits)

lemma unat_word_of_int_u8: "0 \<le> k \<Longrightarrow> k < 256 \<Longrightarrow> unat (word_of_int k :: u8) = nat k"
proof -
  assume "0 \<le> k" "k < 256"
  then have "uint (word_of_int k :: u8) = k" by (simp add: uint_word_of_int)
  then show ?thesis by (simp only: unat_eq_nat_uint)
qed

lemma getDaysInMonth_bounds:
  assumes "1 \<le> unat month" "unat month \<le> 12"
  shows "28 \<le> unat (getDaysInMonth month year) \<and> unat (getDaysInMonth month year) \<le> 31"
proof -
  have a: "\<not> month < 1" using assms(1) by (simp add: word_less_nat_alt)
  have b: "\<not> month > 12" using assms(2) by (simp add: word_less_nat_alt)
  have "unat month - 1 < 12" using assms by simp
  from MONTH_DAYS_bounds [OF this] a b show ?thesis
    by (simp add: getDaysInMonth_def)
qed

lemma lastWeekday_lt7:
  assumes "28 \<le> unat dim"
  shows "unat (word_of_int (c_rem (uint fw + uint dim - 1) 7) :: u8) < 7"
proof -
  define k where "k = uint fw + uint dim - 1"
  have "0 \<le> uint fw" by simp
  moreover have "28 \<le> uint dim" using assms uint_nat [of dim] by linarith
  ultimately have nn: "\<not> k < 0" unfolding k_def by linarith
  have r: "0 \<le> k mod 7" "k mod 7 < 7"
    by simp_all
  then have "k mod 7 < 256" by linarith
  from unat_word_of_int_u8 [OF r(1) this] r have "unat (word_of_int (k mod 7) :: u8) < 7"
    by linarith
  then show ?thesis using nn unfolding k_def [symmetric] by (simp add: c_rem_def)
qed

lemma getDstSwitchDay_counted_total:
  assumes "1 \<le> unat month" "unat month \<le> 12" "unat (dst_weekday tz) \<le> 6"
  shows "\<exists>d n. getDstSwitchDay_counted year month tz isStart = Some (d, n) \<and> n \<le> 6"
proof -
  obtain d where d: "dateToDays year month 1 = Some d"
    using dateToDays_total [of month year 1] assms(2) by auto
  let ?fw = "getWeekdayFromDays d"
  let ?w = "dst_weekday tz"
  have w: "unat ?w < 7" using assms(3) by simp
  have fw: "unat ?fw < 7" by (rule getWeekdayFromDays_lt7)
  let ?tw = "if isStart then dst_start_week tz else dst_end_week tz"
  show ?thesis
  proof (cases "sint ?tw > 0")
    case True
    let ?k = "if unat ?fw \<le> unat ?w then unat ?w - unat ?fw else unat ?w + 7 - unat ?fw"
    have "forward_scan ?w 1 ?fw 0 = Some (1 + of_nat ?k, 0 + ?k)"
      by (rule forward_scan_steps [OF w fw refl])
    moreover have "?k \<le> 6" using w fw by (auto split: if_splits)
    ultimately show ?thesis using d True
      by (simp add: getDstSwitchDay_counted_def Let_def)
  next
    case False
    let ?dim = "getDaysInMonth month year"
    let ?lw = "word_of_int (c_rem (uint ?fw + uint ?dim - 1) 7) :: u8"
    have lw: "unat ?lw < 7"
      using getDaysInMonth_bounds [OF assms(1,2), of year] by (intro lastWeekday_lt7) simp
    let ?k = "if unat ?w \<le> unat ?lw then unat ?lw - unat ?w else unat ?lw + 7 - unat ?w"
    have "backward_scan ?w ?dim ?lw 0 = Some (?dim - of_nat ?k, 0 + ?k)"
      by (rule backward_scan_steps [OF w lw refl])
    moreover have "?k \<le> 6" using w lw by (auto split: if_splits)
    ultimately show ?thesis using d False
      by (simp add: getDstSwitchDay_counted_def Let_def)
  qed
qed

text \<open>
  Claim C3, as amended. For every year, every month in \<open>1..12\<close> and every rule whose
  weekday field is in \<open>0..6\<close>, \<open>getDstSwitchDay\<close> returns: the scan it runs (forward
  for a positive week selector, backward otherwise) executes its body at most 6 times,
  which is within 7 and within the number of days of the month.
\<close>

theorem getDstSwitchDay_terminates:
  assumes "1 \<le> unat month" and "unat month \<le> 12" and "unat (dst_weekday tz) \<le> 6"
  shows "\<exists>d n. getDstSwitchDay_counted year month tz isStart = Some (d, n)
               \<and> getDstSwitchDay year month tz isStart = Some d
               \<and> n \<le> 6 \<and> n \<le> unat (getDaysInMonth month year)"
proof -
  obtain d n where "getDstSwitchDay_counted year month tz isStart = Some (d, n)" and "n \<le> 6"
    using getDstSwitchDay_counted_total [OF assms] by blast
  moreover have "28 \<le> unat (getDaysInMonth month year)"
    using getDaysInMonth_bounds [OF assms(1,2)] by simp
  ultimately show ?thesis
    by (simp add: getDstSwitchDay_def)
qed

theorem getDstSwitchDay_terminates_witness:
  "\<exists>d n. getDstSwitchDay_counted 2024 3 tdEST True = Some (d, n)
         \<and> getDstSwitchDay 2024 3 tdEST True = Some d
         \<and> n \<le> 6 \<and> n \<le> unat (getDaysInMonth 3 2024)"
  using getDstSwitchDay_terminates [of 3 tdEST 2024 True]
  by (simp add: tdEST_def)

text \<open>
  Claim C3 as stated, with no restriction on the weekday field, fails: with weekday 7
  the forward scan compares a value that stays in \<open>0..6\<close> with 7 and never leaves.
\<close>

theorem getDstSwitchDay_weekday7_counterexample:
  "getDstSwitchDay 2024 3 (tdEST\<lparr>dst_weekday := 7\<rparr>) True = None"
proof -
  have "forward_scan 7 1 5 0 = None"
  proof (cases "forward_scan 7 1 5 0")
    case (Some r)
    from forward_scan_never [OF this] show ?thesis by simp
  qed simp
  then show ?thesis
    by (simp add: switch_eval tdEST_def cal_eval)
qed

section \<open>The year from a day count\<close>

lemma div25_le_self: "((q::nat) + 17) div 25 \<le> q"
  by arith

lemma century_count_le: "((n::nat) + 69) div 100 \<le> (n + 1) div 4"
proof -
  have "(n + 69) div 100 = ((n + 69) div 4) div 25"
    by (simp add: div_mult2_eq [symmetric])
  also have "(n + 69) div 4 = (n + 1) div 4 + 17"
    by simp
  also have "((n + 1) div 4 + 17) div 25 \<le> (n + 1) div 4"
    by (rule div25_le_self)
  finally show ?thesis .
qed

lemma year_mod_4: "((n::nat) + 1970) mod 4 = (n + 2) mod 4"
proof -
  have "n + 1970 = n + 2 + 492 * 4" by simp
  then show ?thesis by (simp only: mod_mult_self1)
qed

lemma year_mod_100: "((n::nat) + 1970) mod 100 = (n + 70) mod 100"
proof -
  have "n + 1970 = n + 70 + 19 * 100" by simp
  then show ?thesis by (simp only: mod_mult_self1)
qed

lemma year_mod_400: "((n::nat) + 1970) mod 400 = (n + 370) mod 400"
proof -
  have "n + 1970 = n + 370 + 4 * 400" by simp
  then show ?thesis by (simp only: mod_mult_self1)
qed

lemma mod_400_100: "(y::nat) mod 400 = 0 \<Longrightarrow> y mod 100 = 0"
  using mod_mod_cancel [of 100 400 y] by simp

lemma mod_100_4: "(y::nat) mod 100 = 0 \<Longrightarrow> y mod 4 = 0"
  using mod_mod_cancel [of 4 100 y] by simp

lemma days_before_year_Suc:
  "days_before_year (Suc n) = days_before_year n + (if leap_nat (n + 1970) then 366 else 365)"
proof -
  define A B C where "A = (n + 1) div 4" and "B = (n + 69) div 100" and "C = (n + 369) div 400"
  define A' B' C' where "A' = (Suc n + 1) div 4" and "B' = (Suc n + 69) div 100"
    and "C' = (Suc n + 369) div 400"
  have a: "A' = A + (if (n + 1970) mod 4 = 0 then 1 else 0)"
    unfolding A'_def A_def using div_Suc [of "n + 1" 4] by (simp add: year_mod_4 ac_simps)
  have b: "B' = B + (if (n + 1970) mod 100 = 0 then 1 else 0)"
    unfolding B'_def B_def using div_Suc [of "n + 69" 100] by (simp add: year_mod_100 ac_simps)
  have c: "C' = C + (if (n + 1970) mod 400 = 0 then 1 else 0)"
    unfolding C'_def C_def using div_Suc [of "n + 369" 400] by (simp add: year_mod_400 ac_simps)
  have le: "B \<le> A" unfolding A_def B_def by (rule century_count_le)
  have le': "B' \<le> A'" unfolding A'_def B'_def by (rule century_count_le)
  have e0: "days_before_year n = n * 365 + A - B + C"
    unfolding days_before_year_def A_def B_def C_def ..
  have e1: "days_before_year (Suc n) = Suc n * 365 + A' - B' + C'"
    unfolding days_before_year_def A'_def B'_def C'_def ..
  note f = mod_400_100 [of "n + 1970"] mod_100_4 [of "n + 1970"]
  show ?thesis
  proof (cases "(n + 1970) mod 4 = 0")
    case False
    with f(2) have n100: "(n + 1970) mod 100 \<noteq> 0" by blast
    with f(1) have "(n + 1970) mod 400 \<noteq> 0" by blast
    note this n100
    with False a b c have "A' = A" "B' = B" "C' = C" "\<not> leap_nat (n + 1970)"
      by (simp_all add: leap_nat_def)
    with e0 e1 le show ?thesis by simp
  next
    case year_mod_4: True
    show ?thesis
    proof (cases "(n + 1970) mod 100 = 0")
      case False
      with f(1) have "(n + 1970) mod 400 \<noteq> 0" by blast
      with False year_mod_4 a b c have "A' = A + 1" "B' = B" "C' = C" "leap_nat (n + 1970)"
        by (simp_all add: leap_nat_def)
      with e0 e1 le show ?thesis by simp
    next
      case year_mod_100: True
      show ?thesis
      proof (cases "(n + 1970) mod 400 = 0")
        case False
        with year_mod_100 year_mod_4 a b c have "A' = A + 1" "B' = B + 1" "C' = C" "\<not> leap_nat (n + 1970)"
          by (simp_all add: leap_nat_def)
        with e0 e1 le show ?thesis by simp
      next
        case True
        with year_mod_100 year_mod_4 a b c have "A' = A + 1" "B' = B + 1" "C' = C + 1" "leap_nat (n + 1970)"
          by (simp_all add: leap_nat_def)
        with e0 e1 le show ?thesis by simp
      qed
    qed
  qed
qed


lemma days_before_year_mono: "a \<le> b \<Longrightarrow> days_before_year a \<le> days_before_year b"
proof (induction b)
  case 0
  then show ?case by simp
next
  case (Suc b)
  show ?case
  proof (cases "a = Suc b")
    case True
    then show ?thesis by simp
  next
    case False
    with Suc.prems have "a \<le> b" by simp
    from Suc.IH [OF this] show ?thesis
      by (simp add: days_before_year_Suc)
  qed
qed

lemma days_before_year_less: "a < b \<Longrightarrow> days_before_year a < days_before_year b"
proof -
  assume "a < b"
  then have "Suc a \<le> b" by simp
  from days_before_year_mono [OF this] show ?thesis
    by (simp add: days_before_year_Suc split: if_splits)
qed

lemma days_before_year_upper: "days_before_year n \<le> 366 * n"
  by (induction n) (simp_all add: days_before_year_def days_before_year_Suc)

lemma unat_of_nat_u32: "n < 4294967296 \<Longrightarrow> unat (of_nat n :: u32) = n"
  by (simp only: unat_of_nat) simp

lemma leaps_of_unat:
  assumes "unat x \<le> 1000"
  shows "unat (x * 365 + leaps_of x) = days_before_year (unat x)"
proof -
  define n where "n = unat x"
  have n: "n \<le> 1000" using assms by (simp add: n_def)
  have x: "x = of_nat n" by (simp add: n_def)
  have u: "unat (of_nat k :: u32) = k" if "k < 4294967296" for k
    using that by (rule unat_of_nat_u32)
  have ux: "unat x = n" by (simp add: n_def)
  have ua: "unat (x + c) = n + unat c" if "unat c \<le> 1000" for c :: u32
  proof -
    have "unat x + unat c < 2 ^ LENGTH(32)" using n that ux by simp
    then have "unat (x + c) = unat x + unat c" by (simp only: unat_add_lem)
    then show ?thesis by (simp only: ux)
  qed
  have d1: "unat ((x + 1) div 4) = (n + 1) div 4"
    using ua [of 1] by (simp add: unat_div)
  have d2: "unat ((x + 69) div 100) = (n + 69) div 100"
    using ua [of 69] by (simp add: unat_div)
  have d3: "unat ((x + 369) div 400) = (n + 369) div 400"
    using ua [of 369] by (simp add: unat_div)
  have m: "unat (x * 365) = n * 365"
  proof -
    have "unat x * unat (365 :: u32) < 2 ^ LENGTH(32)" using n ux by simp
    then have "unat (x * 365) = unat x * unat (365 :: u32)" by (simp only: unat_mult_lem)
    then show ?thesis by (simp add: ux)
  qed
  have le: "(x + 69) div 100 \<le> (x + 1) div 4"
    unfolding word_le_nat_alt d1 d2 by (rule century_count_le)
  have s: "unat ((x + 1) div 4 - (x + 69) div 100) = (n + 1) div 4 - (n + 69) div 100"
    using unat_sub [OF le] by (simp only: d1 d2)
  have b1: "(n + 1) div 4 \<le> 251" using n by simp
  have b3: "(n + 369) div 400 \<le> 4" using n by simp
  have a1: "unat ((x + 1) div 4 - (x + 69) div 100 + (x + 369) div 400)
              = (n + 1) div 4 - (n + 69) div 100 + (n + 369) div 400"
  proof -
    have "unat ((x + 1) div 4 - (x + 69) div 100) + unat ((x + 369) div 400) < 2 ^ LENGTH(32)"
      unfolding s d3 using b1 b3 by simp
    then have "unat ((x + 1) div 4 - (x + 69) div 100 + (x + 369) div 400)
                 = unat ((x + 1) div 4 - (x + 69) div 100) + unat ((x + 369) div 400)"
      by (simp only: unat_add_lem)
    then show ?thesis by (simp only: s d3)
  qed
  have a2: "unat (x * 365 + ((x + 1) div 4 - (x + 69) div 100 + (x + 369) div 400))
              = n * 365 + ((n + 1) div 4 - (n + 69) div 100 + (n + 369) div 400)"
  proof -
    have "unat (x * 365) + unat ((x + 1) div 4 - (x + 69) div 100 + (x + 369) div 400)
            < 2 ^ LENGTH(32)"
      unfolding m a1 using n b1 b3 by simp
    then have "unat (x * 365 + ((x + 1) div 4 - (x + 69) div 100 + (x + 369) div 400))
                 = unat (x * 365) + unat ((x + 1) div 4 - (x + 69) div 100 + (x + 369) div 400)"
      by (simp only: unat_add_lem)
    then show ?thesis by (simp only: m a1)
  qed
  have "(n + 69) div 100 \<le> (n + 1) div 4" by (rule century_count_le)
  then have "n * 365 + ((n + 1) div 4 - (n + 69) div 100 + (n + 369) div 400) = days_before_year n"
    unfolding days_before_year_def by linarith
  with a2 show ?thesis
    unfolding leaps_of_def n_def by simp
qed

lemma yearFromDays_mid_bounds:
  assumes "lo < hi"
  shows "unat (yearFromDays_mid lo hi) = unat lo + (unat hi - unat lo) div 2"
    and "unat (yearFromDays_mid lo hi + 1) = unat lo + (unat hi - unat lo) div 2 + 1"
    and "unat lo < unat hi"
proof -
  show lt: "unat lo < unat hi" using assms by (simp add: word_less_nat_alt)
  have hi: "unat hi < 65536" using unsigned_less [of hi] by simp
  have "unat lo + (unat hi - unat lo) div 2 < 65536" using lt hi by linarith
  then show m: "unat (yearFromDays_mid lo hi) = unat lo + (unat hi - unat lo) div 2"
    unfolding yearFromDays_mid_def by (simp only: unat_of_nat) simp
  have "unat (yearFromDays_mid lo hi) + 1 < 65536" using lt hi m by linarith
  then have "unat (yearFromDays_mid lo hi + 1) = unat (yearFromDays_mid lo hi) + 1"
    by (simp add: unat_word_ariths)
  with m show "unat (yearFromDays_mid lo hi + 1) = unat lo + (unat hi - unat lo) div 2 + 1"
    by simp
qed

lemma year_offset_unat:
  assumes "1970 \<le> unat (y :: u16)"
  shows "unat (ucast y - 1970 :: u32) = unat y - 1970"
proof -
  have b: "unat y < 65536" using unsigned_less [of y] by simp
  have u: "unat (ucast y :: u32) = unat y"
    using b by (simp add: unsigned_ucast_eq take_bit_eq_mod)
  have "(1970 :: u32) \<le> ucast y"
    unfolding word_le_nat_alt u using assms by simp
  from unat_sub [OF this] show ?thesis by (simp add: u)
qed

lemma days_before_year_test:
  assumes "1970 \<le> unat (y :: u16)" "unat y \<le> 2970"
  shows "((ucast y - 1970) * 365 + leaps_of (ucast y - 1970) > (d :: u32))
           \<longleftrightarrow> unat d < days_before_year (unat y - 1970)"
proof -
  have "unat (ucast y - 1970 :: u32) \<le> 1000"
    using assms by (simp add: year_offset_unat)
  from leaps_of_unat [OF this] show ?thesis
    by (simp add: word_less_nat_alt year_offset_unat [OF assms(1)])
qed

lemma yearFromDays_loop_correct:
  "days_before_year n \<le> unat d \<Longrightarrow> unat d < days_before_year (Suc n) \<Longrightarrow>
   1971 \<le> unat lo \<Longrightarrow> unat lo \<le> 1971 + n \<Longrightarrow> 1971 + n \<le> unat hi \<Longrightarrow> unat hi \<le> 2501 \<Longrightarrow>
   unat (yearFromDays_loop lo hi d) = 1971 + n"
proof (induction lo hi d rule: yearFromDays_loop.induct)
  case (1 lo hi d)
  show ?case
  proof (cases "lo < hi")
    case False
    then have "unat hi \<le> unat lo" by (simp add: word_less_nat_alt)
    with "1.prems" have "unat lo = 1971 + n" by simp
    with False show ?thesis by (subst yearFromDays_loop.simps) simp
  next
    case True
    let ?mid = "yearFromDays_mid lo hi"
    note mb = yearFromDays_mid_bounds [OF True]
    have m1: "1970 \<le> unat ?mid" "unat ?mid \<le> 2970" "unat lo \<le> unat ?mid" "unat ?mid < unat hi"
      using mb "1.prems" by simp_all
    let ?T = "(ucast ?mid - 1970) * 365 + leaps_of (ucast ?mid - 1970) > d"
    have T: "?T \<longleftrightarrow> unat d < days_before_year (unat ?mid - 1970)"
      by (rule days_before_year_test [OF m1(1,2)])
    show ?thesis
    proof (cases ?T)
      case t: True
      have "Suc n \<le> unat ?mid - 1970"
      proof (rule ccontr)
        assume "\<not> Suc n \<le> unat ?mid - 1970"
        then have "unat ?mid - 1970 \<le> n" by simp
        from days_before_year_mono [OF this] t T "1.prems"(1) show False by simp
      qed
      then have "1971 + n \<le> unat ?mid" by simp
      from "1.IH"(1) [OF True t "1.prems"(1,2,3,4) this] m1(4) "1.prems"(6)
      have "unat (yearFromDays_loop lo ?mid d) = 1971 + n" by simp
      with True t show ?thesis by (subst yearFromDays_loop.simps) simp
    next
      case f: False
      have "unat ?mid - 1970 \<le> n"
      proof (rule ccontr)
        assume "\<not> unat ?mid - 1970 \<le> n"
        then have "Suc n \<le> unat ?mid - 1970" by simp
        from days_before_year_mono [OF this] f T "1.prems"(2) show False by simp
      qed
      moreover have "unat (?mid + 1) = unat ?mid + 1" using mb by simp
      ultimately have a: "unat (?mid + 1) \<le> 1971 + n" and b: "1971 \<le> unat (?mid + 1)"
        using m1 "1.prems"(3) by linarith+
      from "1.IH"(2) [OF True f "1.prems"(1,2) b a "1.prems"(5,6)]
      have "unat (yearFromDays_loop (?mid + 1) hi d) = 1971 + n" .
      with True f show ?thesis by (subst yearFromDays_loop.simps) simp
    qed
  qed
qed

lemma yearFromDays_correct:
  assumes "days_before_year n \<le> unat d" and "unat d < days_before_year (Suc n)" and "n \<le> 530"
  shows "unat (yearFromDays d) = 1970 + n"
proof -
  have "unat (yearFromDays_loop 1971 2501 d) = 1971 + n"
    using assms by (intro yearFromDays_loop_correct) simp_all
  moreover have "yearFromDays_loop 1971 2501 d \<noteq> 0"
    using calculation by (auto simp: unat_eq_zero [symmetric] simp del: unat_eq_zero)
  ultimately show ?thesis
    by (simp add: yearFromDays_def unat_minus_one)
qed

lemma yearFromDays_loop_range:
  "unat lo \<le> unat hi \<Longrightarrow>
   unat lo \<le> unat (yearFromDays_loop lo hi d) \<and> unat (yearFromDays_loop lo hi d) \<le> unat hi"
proof (induction lo hi d rule: yearFromDays_loop.induct)
  case (1 lo hi d)
  show ?case
  proof (cases "lo < hi")
    case False
    then show ?thesis using "1.prems" by (subst (1 2) yearFromDays_loop.simps) simp
  next
    case True
    let ?mid = "yearFromDays_mid lo hi"
    note mb = yearFromDays_mid_bounds [OF True]
    let ?T = "(ucast ?mid - 1970) * 365 + leaps_of (ucast ?mid - 1970) > d"
    show ?thesis
    proof (cases ?T)
      case t: True
      have le: "unat lo \<le> unat ?mid" and lt: "unat ?mid < unat hi" using mb by simp_all
      from "1.IH"(1) [OF True t le] lt
      have "unat lo \<le> unat (yearFromDays_loop lo ?mid d)
            \<and> unat (yearFromDays_loop lo ?mid d) \<le> unat hi" by linarith
      with True t show ?thesis
        by (subst (1 2) yearFromDays_loop.simps) simp
    next
      case f: False
      have le: "unat (?mid + 1) \<le> unat hi" and ge: "unat lo \<le> unat (?mid + 1)"
        using mb by simp_all
      from "1.IH"(2) [OF True f le] ge
      have "unat lo \<le> unat (yearFromDays_loop (?mid + 1) hi d)
            \<and> unat (yearFromDays_loop (?mid + 1) hi d) \<le> unat hi" by linarith
      with True f show ?thesis
        by (subst (1 2) yearFromDays_loop.simps) simp
    qed
  qed
qed

lemma yearFromDays_range: "1970 \<le> unat (yearFromDays d) \<and> unat (yearFromDays d) \<le> 2500"
proof -
  have r: "1971 \<le> unat (yearFromDays_loop 1971 2501 d) \<and> unat (yearFromDays_loop 1971 2501 d) \<le> 2501"
    using yearFromDays_loop_range [of 1971 2501 d] by simp
  then have "yearFromDays_loop 1971 2501 d \<noteq> 0"
    by (auto simp: unat_eq_zero [symmetric] simp del: unat_eq_zero)
  then have "unat (yearFromDays d) = unat (yearFromDays_loop 1971 2501 d) - 1"
    by (simp add: yearFromDays_def unat_minus_one)
  with r show ?thesis by linarith
qed

section \<open>Months and days\<close>

lemma isLeapYear_leap_nat: "isLeapYear year \<noteq> 0 \<longleftrightarrow> leap_nat (unat year)"
  using mod_400_100 [of "unat year"] mod_100_4 [of "unat year"]
  by (auto simp: isLeapYear_def leap_nat_def)

lemma days_before_month_mono: "a \<le> b \<Longrightarrow> days_before_month year a \<le> days_before_month year b"
proof (induction b)
  case 0
  then show ?case by simp
next
  case (Suc b)
  show ?case
  proof (cases "a = Suc b")
    case True
    then show ?thesis by simp
  next
    case False
    with Suc.prems have "a \<le> b" by simp
    from Suc.IH [OF this] show ?thesis by (cases "b = 0") simp_all
  qed
qed

lemma days_before_month_Suc:
  "1 \<le> unat (m :: u8) \<Longrightarrow>
   days_before_month year (Suc (unat m)) = days_before_month year (unat m) + unat (getDaysInMonth m year)"
  by simp

lemma month_len_step:
  assumes "month_days_at m = Some md"
  shows "(if m = 2 \<and> isLeapYear year \<noteq> 0 then ucast md + 1 else ucast md :: u32)
           = of_nat (unat (getDaysInMonth m year))"
    and "unat (getDaysInMonth m year) = (if m = 2 \<and> isLeapYear year \<noteq> 0 then 29 else unat md)"
    and "unat md \<le> unat (getDaysInMonth m year)"
    and "28 \<le> unat md" and "unat md \<le> 31"
proof -
  from assms have r: "1 \<le> unat m" "unat m \<le> 12" and md: "md = MONTH_DAYS ! (unat m - 1)"
    by (auto simp: month_days_at_def split: if_splits)
  have a: "\<not> m < 1" using r(1) by (simp add: word_less_nat_alt)
  have b: "\<not> m > 12" using r(2) by (simp add: word_less_nat_alt)
  have "unat m - 1 < 12" using r by simp
  from MONTH_DAYS_bounds [OF this] show "28 \<le> unat md" "unat md \<le> 31"
    by (simp_all add: md)
  have m2: "md = 28" if "m = 2"
    using that by (simp add: md MONTH_DAYS_def)
  show g: "unat (getDaysInMonth m year) = (if m = 2 \<and> isLeapYear year \<noteq> 0 then 29 else unat md)"
    using a b by (auto simp: getDaysInMonth_def md)
  show "unat md \<le> unat (getDaysInMonth m year)"
    unfolding g using m2 by auto
  show "(if m = 2 \<and> isLeapYear year \<noteq> 0 then ucast md + 1 else ucast md :: u32)
           = of_nat (unat (getDaysInMonth m year))"
    unfolding g using m2 by auto
qed

lemma dateToDays_loop_closed:
  "1 \<le> unat m \<Longrightarrow> unat m \<le> unat month \<Longrightarrow> unat month \<le> 12 \<Longrightarrow>
   dateToDays_loop year month m days
     = Some (days + of_nat (days_before_month year (unat month) - days_before_month year (unat m)))"
proof (induction year month m days rule: dateToDays_loop.induct)
  case (1 year month m days)
  show ?case
  proof (cases "m < month")
    case False
    then have "unat month \<le> unat m" by (simp add: word_less_nat_alt)
    with "1.prems" have "unat m = unat month" by simp
    with False show ?thesis by (subst dateToDays_loop.simps) simp
  next
    case True
    then have lt: "unat m < unat month" by (simp add: word_less_nat_alt)
    with "1.prems" have m12: "unat m \<le> 12" by simp
    obtain md where md: "month_days_at m = Some md"
      using month_days_at_Some [OF "1.prems"(1) m12] by blast
    have suc: "unat (m + 1) = Suc (unat m)"
      using m12 by (simp add: unat_word_ariths)
    let ?days' = "if m = 2 \<and> isLeapYear year \<noteq> 0 then days + ucast md + 1 else days + ucast md"
    have d': "?days' = days + of_nat (unat (getDaysInMonth m year))"
      using month_len_step(1) [OF md, of year] by (auto simp: add.assoc)
    have "dateToDays_loop year month (m + 1) ?days'
            = Some (?days' + of_nat (days_before_month year (unat month)
                                      - days_before_month year (unat (m + 1))))"
      using "1.IH" [OF True md] suc lt "1.prems"(3) by simp
    moreover have "days_before_month year (Suc (unat m)) \<le> days_before_month year (unat month)"
      using lt by (intro days_before_month_mono) simp
    then have "days_before_month year (unat month) - days_before_month year (unat m)
          = unat (getDaysInMonth m year)
            + (days_before_month year (unat month) - days_before_month year (Suc (unat m)))"
      using days_before_month_Suc [OF "1.prems"(1), of year] by linarith
    ultimately have "dateToDays_loop year month (m + 1) ?days'
            = Some (days + of_nat (days_before_month year (unat month)
                                      - days_before_month year (unat m)))"
      unfolding d' suc by (simp only: of_nat_add add.assoc)
    then show ?thesis using True md
      by (subst dateToDays_loop.simps) simp
  qed
qed

lemma u32_ge_ucast_u8: "(x :: u32) \<ge> ucast (b :: u8) \<longleftrightarrow> unat b \<le> unat x"
proof -
  have "unat b < 256" using unsigned_less [of b] by simp
  then have "unat (ucast b :: u32) = unat b"
    by (simp add: unsigned_ucast_eq take_bit_eq_mod)
  then show ?thesis by (simp add: word_le_nat_alt)
qed

lemma toTimeStruct_loop_closed:
  "1 \<le> unat k \<Longrightarrow> unat k \<le> unat m \<Longrightarrow> unat m \<le> 12 \<Longrightarrow>
   r < unat (getDaysInMonth m year) \<Longrightarrow>
   unat dr = days_before_month year (unat m) - days_before_month year (unat k) + r \<Longrightarrow>
   toTimeStruct_loop year k dr = Some (m, of_nat r)"
proof (induction year k dr rule: toTimeStruct_loop.induct)
  case (1 year k dr)
  have k12: "unat k \<le> 12" using "1.prems" by simp
  obtain md where md: "month_days_at k = Some md"
    using month_days_at_Some [OF "1.prems"(1) k12] by blast
  note ml = month_len_step [OF md]
  let ?dim = "if k = 2 \<and> isLeapYear year \<noteq> 0 then 29 else ucast md :: u32"
  have dim: "?dim = of_nat (unat (getDaysInMonth k year))"
    using ml(2) [of year] by (auto simp: )
  have len32: "unat (getDaysInMonth k year) < 4294967296"
    using ml(2) [of year] ml(5) by (simp split: if_splits)
  have udim: "unat ?dim = unat (getDaysInMonth k year)"
    unfolding dim by (rule unat_of_nat_u32 [OF len32])
  have t1: "dr \<ge> ucast md \<longleftrightarrow> unat md \<le> unat dr"
    by (rule u32_ge_ucast_u8)
  have t2: "dr \<ge> ?dim \<longleftrightarrow> unat (getDaysInMonth k year) \<le> unat dr"
    unfolding word_le_nat_alt udim ..
  show ?case
  proof (cases "unat k = unat m")
    case True
    then have km: "k = m" by (simp add: word_unat_eq_iff)
    with "1.prems" have "unat dr = r" by simp
    then have dr: "dr = of_nat r" by (metis of_nat_unat ucast_id)
    have "\<not> dr \<ge> ?dim"
      unfolding t2 using \<open>unat dr = r\<close> "1.prems"(4) km by simp
    then show ?thesis using md km dr
      by (subst toTimeStruct_loop.simps) (simp del: of_nat_unat)
  next
    case False
    with "1.prems" have lt: "unat k < unat m" by simp
    have suc: "unat (k + 1) = Suc (unat k)"
      using k12 by (simp add: unat_word_ariths)
    have "days_before_month year (Suc (unat k)) \<le> days_before_month year (unat m)"
      using lt by (intro days_before_month_mono) simp
    then have split: "days_before_month year (unat m) - days_before_month year (unat k)
          = unat (getDaysInMonth k year)
            + (days_before_month year (unat m) - days_before_month year (Suc (unat k)))"
      using days_before_month_Suc [OF "1.prems"(1), of year] by linarith
    then have ge2: "unat (getDaysInMonth k year) \<le> unat dr"
      using "1.prems"(5) by linarith
    with ml(3) [of year] have ge1: "unat md \<le> unat dr" by linarith
    have c1: "dr \<ge> ucast md" using ge1 t1 by simp
    have c2: "dr \<ge> ?dim" using ge2 t2 by simp
    have "unat (dr - ?dim) = unat dr - unat ?dim"
      by (rule unat_sub [OF c2])
    then have "unat (dr - ?dim)
                 = days_before_month year (unat m) - days_before_month year (unat (k + 1)) + r"
      unfolding udim suc using split "1.prems"(5) by linarith
    from "1.IH" [OF md c1 c2 _ _ "1.prems"(3,4) this] suc lt
    have "toTimeStruct_loop year (k + 1) (dr - ?dim) = Some (m, of_nat r)" by simp
    then show ?thesis using md c1 c2
      by (subst toTimeStruct_loop.simps) simp
  qed
qed

lemma getDaysInMonth_le31: "unat (getDaysInMonth m y) \<le> 31"
proof (cases "1 \<le> unat m \<and> unat m \<le> 12")
  case True
  then show ?thesis using getDaysInMonth_bounds [of m y] by simp
next
  case False
  then have "m < 1 \<or> m > 12" by (auto simp: word_less_nat_alt)
  then show ?thesis by (auto simp: getDaysInMonth_def)
qed

lemma days_before_month_upper: "days_before_month year k \<le> 31 * k"
proof (induction k)
  case 0
  show ?case by simp
next
  case (Suc k)
  then show ?case using getDaysInMonth_le31 [of "of_nat k" year] by simp
qed

lemma unat_ucast_u8_u32: "unat (ucast (b :: u8) :: u32) = unat b"
proof -
  have "unat b < 256" using unsigned_less [of b] by simp
  then show ?thesis by (simp add: unsigned_ucast_eq take_bit_eq_mod)
qed

lemma unat_ucast_u32_u64: "unat (ucast (x :: u32) :: u64) = unat x"
proof -
  have "unat x < 4294967296" using unsigned_less [of x] by simp
  then show ?thesis by (simp add: unsigned_ucast_eq take_bit_eq_mod)
qed

lemma unat_of_nat_u64: "n < 18446744073709551616 \<Longrightarrow> unat (of_nat n :: u64) = n"
  by (simp only: unat_of_nat) simp

lemma dateToDays_closed:
  assumes "1970 \<le> unat year" and "unat year \<le> 2500"
    and "1 \<le> unat month" and "unat month \<le> 12"
    and "1 \<le> days_before_year (unat year - 1970) + days_before_month year (unat month) + unat day"
  shows "\<exists>d. dateToDays year month day = Some d
             \<and> unat d + 1 = days_before_year (unat year - 1970)
                             + days_before_month year (unat month) + unat day"
proof -
  define n where "n = unat year - 1970"
  define Y where "Y = days_before_year n"
  define M where "M = days_before_month year (unat month)"
  let ?years = "ucast year - 1970 :: u32"
  let ?days = "?years * 365 + leaps_of ?years"
  have n: "n \<le> 530" using assms(2) by (simp add: n_def)
  have yo: "unat ?years = n"
    unfolding n_def by (rule year_offset_unat [OF assms(1)])
  have "unat ?years \<le> 1000" using yo n by simp
  from leaps_of_unat [OF this] have ud: "unat ?days = Y"
    by (simp add: yo Y_def)
  have Yb: "Y \<le> 366 * 530"
    using days_before_year_upper [of n] n unfolding Y_def by linarith
  have Mb: "M \<le> 31 * 12"
    using days_before_month_upper [of year "unat month"] assms(4) unfolding M_def by linarith
  have Db: "unat day < 256" using unsigned_less [of day] by simp
  have one: "unat (1 :: u8) = Suc 0" by simp
  have loop: "dateToDays_loop year month 1 ?days = Some (?days + of_nat M)"
    using dateToDays_loop_closed [of 1 month year ?days] assms(3,4)
    by (simp add: M_def)
  have days: "?days = of_nat Y" using ud by (metis of_nat_unat ucast_id)
  have "?days + of_nat M + ucast day = (of_nat (Y + M + unat day) :: u32)"
    unfolding days by simp
  moreover have "unat (of_nat (Y + M + unat day) :: u32) = Y + M + unat day"
    using Yb Mb Db by (intro unat_of_nat_u32) linarith
  ultimately have s: "unat (?days + of_nat M + ucast day) = Y + M + unat day" by simp
  have "1 \<le> Y + M + unat day" using assms(5) by (simp add: Y_def M_def n_def)
  with s have nz: "?days + of_nat M + ucast day \<noteq> 0"
    by (metis not_one_le_zero unat_eq_zero)
  have "unat (?days + of_nat M + ucast day - 1) = Y + M + unat day - 1"
    using unat_minus_one [OF nz] s by simp
  moreover have "?days + of_nat M + (ucast day - 1) = ?days + of_nat M + ucast day - 1"
    by simp
  ultimately have "unat (?days + of_nat M + (ucast day - 1)) + 1 = Y + M + unat day"
    using \<open>1 \<le> Y + M + unat day\<close> by simp
  then show ?thesis
    using loop by (simp add: dateToDays_def Let_def Y_def M_def n_def)
qed

lemma dateToMs_closed:
  assumes "dateToDays year month day = Some d"
  shows "\<exists>ms. dateToMs year month day hour minute second = Some ms
              \<and> unat ms = unat d * 86400000 + unat hour * 3600000
                           + unat minute * 60000 + unat second * 1000"
proof -
  have b: "unat hour < 256" "unat minute < 256" "unat second < 256" "unat d < 4294967296"
    using unsigned_less [of hour] unsigned_less [of minute] unsigned_less [of second]
      unsigned_less [of d] by simp_all
  have m32: "unat ((ucast x :: u32) * c) = unat x * unat c" if "unat c \<le> 3600000"
    for x :: u8 and c :: u32
  proof -
    have "unat x < 256" using unsigned_less [of x] by simp
    then have "unat x * unat c < 256 * 3600001"
      using that by (intro mult_strict_mono) simp_all
    then have "unat (ucast x :: u32) * unat c < 2 ^ LENGTH(32)"
      by (simp add: unat_ucast_u8_u32)
    then have "unat ((ucast x :: u32) * c) = unat (ucast x :: u32) * unat c"
      by (simp only: unat_mult_lem)
    then show ?thesis by (simp only: unat_ucast_u8_u32)
  qed
  have h: "unat (ucast ((ucast hour :: u32) * 3600000) :: u64) = unat hour * 3600000"
    using m32 [of 3600000 hour] by (simp add: unat_ucast_u32_u64)
  have mi: "unat (ucast ((ucast minute :: u32) * 60000) :: u64) = unat minute * 60000"
    using m32 [of 60000 minute] by (simp add: unat_ucast_u32_u64)
  have se: "unat (ucast ((ucast second :: u32) * 1000) :: u64) = unat second * 1000"
    using m32 [of 1000 second] by (simp add: unat_ucast_u32_u64)
  have dd: "unat ((ucast d :: u64) * 86400000) = unat d * 86400000"
  proof -
    have "unat (ucast d :: u64) * unat (86400000 :: u64) < 2 ^ LENGTH(64)"
      using b(4) by (simp add: unat_ucast_u32_u64)
    then have "unat ((ucast d :: u64) * 86400000) = unat (ucast d :: u64) * unat (86400000 :: u64)"
      by (simp only: unat_mult_lem)
    then show ?thesis by (simp add: unat_ucast_u32_u64)
  qed
  define A where "A = (ucast d :: u64) * 86400000"
  define B where "B = (ucast ((ucast hour :: u32) * 3600000) :: u64)"
  define C where "C = (ucast ((ucast minute :: u32) * 60000) :: u64)"
  define D where "D = (ucast ((ucast second :: u32) * 1000) :: u64)"
  have ub: "unat A = unat d * 86400000" "unat B = unat hour * 3600000"
    "unat C = unat minute * 60000" "unat D = unat second * 1000"
    by (simp_all add: A_def B_def C_def D_def dd h mi se)
  have "A + B + C + D = of_nat (unat A + unat B + unat C + unat D)"
    by simp
  moreover have "unat A + unat B + unat C + unat D < 18446744073709551616"
    unfolding ub using b by linarith
  ultimately have "unat (A + B + C + D) = unat A + unat B + unat C + unat D"
    by (simp only: unat_of_nat_u64)
  then show ?thesis
    using assms by (simp add: dateToMs_def ub A_def [symmetric] B_def [symmetric]
        C_def [symmetric] D_def [symmetric])
qed

lemma getDaysInMonth_eval:
  "getDaysInMonth 1 y = 31" "getDaysInMonth 2 y = (if isLeapYear y \<noteq> 0 then 29 else 28)"
  "getDaysInMonth 3 y = 31" "getDaysInMonth 4 y = 30" "getDaysInMonth 5 y = 31"
  "getDaysInMonth 6 y = 30" "getDaysInMonth 7 y = 31" "getDaysInMonth 8 y = 31"
  "getDaysInMonth 9 y = 30" "getDaysInMonth 10 y = 31" "getDaysInMonth 11 y = 30"
  "getDaysInMonth 12 y = 31"
  by (simp_all add: getDaysInMonth_def MONTH_DAYS_def)

lemma days_before_month_add1:
  "0 < k \<Longrightarrow> days_before_month year (k + 1)
     = days_before_month year k + unat (getDaysInMonth (of_nat k) year)"
  by simp

lemma days_before_month_13:
  "days_before_month year 13 = (if isLeapYear year \<noteq> 0 then 366 else 365)"
proof -
  have s1: "days_before_month year 1 = 0" by simp
  have s2: "days_before_month year 2 = days_before_month year 1 + unat (getDaysInMonth 1 year)"
    by (simp add: numeral_2_eq_2)
  have s3: "days_before_month year 3 = days_before_month year 2 + unat (getDaysInMonth 2 year)"
    using days_before_month_add1 [of 2 year] by simp
  have s4: "days_before_month year 4 = days_before_month year 3 + unat (getDaysInMonth 3 year)"
    using days_before_month_add1 [of 3 year] by simp
  have s5: "days_before_month year 5 = days_before_month year 4 + unat (getDaysInMonth 4 year)"
    using days_before_month_add1 [of 4 year] by simp
  have s6: "days_before_month year 6 = days_before_month year 5 + unat (getDaysInMonth 5 year)"
    using days_before_month_add1 [of 5 year] by simp
  have s7: "days_before_month year 7 = days_before_month year 6 + unat (getDaysInMonth 6 year)"
    using days_before_month_add1 [of 6 year] by simp
  have s8: "days_before_month year 8 = days_before_month year 7 + unat (getDaysInMonth 7 year)"
    using days_before_month_add1 [of 7 year] by simp
  have s9: "days_before_month year 9 = days_before_month year 8 + unat (getDaysInMonth 8 year)"
    using days_before_month_add1 [of 8 year] by simp
  have s10: "days_before_month year 10 = days_before_month year 9 + unat (getDaysInMonth 9 year)"
    using days_before_month_add1 [of 9 year] by simp
  have s11: "days_before_month year 11 = days_before_month year 10 + unat (getDaysInMonth 10 year)"
    using days_before_month_add1 [of 10 year] by simp
  have s12: "days_before_month year 12 = days_before_month year 11 + unat (getDaysInMonth 11 year)"
    using days_before_month_add1 [of 11 year] by simp
  have s13: "days_before_month year 13 = days_before_month year 12 + unat (getDaysInMonth 12 year)"
    using days_before_month_add1 [of 12 year] by simp
  show ?thesis
    unfolding s13 s12 s11 s10 s9 s8 s7 s6 s5 s4 s3 s2 s1 getDaysInMonth_eval by simp
qed

section \<open>Composition and decomposition of a timestamp\<close>

lemma divmod_nat_unique:
  fixes q k s :: nat
  assumes "s < k"
  shows "(q * k + s) mod k = s" and "(q * k + s) div k = q"
  using assms by simp_all

lemma time_of_day_nat:
  fixes h mi s :: nat
  assumes "mi \<le> 59" "s \<le> 59"
  shows "(h * 3600000 + mi * 60000 + s * 1000) mod 1000 = 0"
    and "(h * 3600000 + mi * 60000 + s * 1000) div 1000 = h * 3600 + mi * 60 + s"
    and "(h * 3600 + mi * 60 + s) mod 60 = s"
    and "(h * 3600 + mi * 60 + s) div 60 mod 60 = mi"
    and "(h * 3600 + mi * 60 + s) div 3600 = h"
proof -
  have e1: "h * 3600000 + mi * 60000 + s * 1000 = (h * 3600 + mi * 60 + s) * 1000 + 0" by simp
  show "(h * 3600000 + mi * 60000 + s * 1000) mod 1000 = 0"
    unfolding e1 by (rule divmod_nat_unique) simp
  show "(h * 3600000 + mi * 60000 + s * 1000) div 1000 = h * 3600 + mi * 60 + s"
    unfolding e1 by (rule divmod_nat_unique) simp
  have e2: "h * 3600 + mi * 60 + s = (h * 60 + mi) * 60 + s" by simp
  have s: "s < 60" using assms(2) by simp
  show "(h * 3600 + mi * 60 + s) mod 60 = s"
    unfolding e2 by (rule divmod_nat_unique(1) [OF s])
  have d60: "(h * 3600 + mi * 60 + s) div 60 = h * 60 + mi"
    unfolding e2 by (rule divmod_nat_unique(2) [OF s])
  have mi: "mi < 60" using assms(1) by simp
  show "(h * 3600 + mi * 60 + s) div 60 mod 60 = mi"
    unfolding d60 by (rule divmod_nat_unique(1) [OF mi])
  have e3: "h * 3600 + mi * 60 + s = h * 3600 + (mi * 60 + s)" by simp
  have "mi * 60 + s < 3600" using assms by linarith
  then show "(h * 3600 + mi * 60 + s) div 3600 = h"
    unfolding e3 by (rule divmod_nat_unique(2))
qed

lemma ucast_eq_u8: "unat (x :: u32) = unat (b :: u8) \<Longrightarrow> ucast x = b"
  by (metis of_nat_unat ucast_id)

lemma ucast_eq_u16: "unat (x :: u32) = unat (b :: u16) \<Longrightarrow> ucast x = b"
  by (metis of_nat_unat ucast_id)

lemma ucast_eq_u32: "unat (x :: u64) = unat (b :: u32) \<Longrightarrow> ucast x = b"
  by (metis of_nat_unat ucast_id)

lemma unat_mul_day: "unat ((ucast (d :: u32) :: u64) * 86400000) = unat d * 86400000"
proof -
  have b: "unat d < 4294967296" using unsigned_less [of d] by simp
  have "unat (ucast d :: u64) * unat (86400000 :: u64) < 2 ^ LENGTH(64)"
    using b by (simp add: unat_ucast_u32_u64)
  then have "unat ((ucast d :: u64) * 86400000) = unat (ucast d :: u64) * unat (86400000 :: u64)"
    by (simp only: unat_mult_lem)
  then show ?thesis by (simp add: unat_ucast_u32_u64)
qed

lemma toTimeStruct_split:
  fixes ms :: u64 and d :: u32
  assumes "unat ms = unat d * 86400000 + t" and "t < 86400000"
  shows "(ucast (ms div 86400000) :: u32) = d"
    and "unat (ucast (ms - ucast d * 86400000) :: u32) = t"
proof -
  have "unat (ms div 86400000) = unat ms div 86400000"
    by (simp add: unat_div)
  also have "\<dots> = unat d"
    unfolding assms(1) by (rule divmod_nat_unique(2) [OF assms(2)])
  finally show d: "(ucast (ms div 86400000) :: u32) = d"
    by (rule ucast_eq_u32)
  have "(ucast d :: u64) * 86400000 \<le> ms"
    unfolding word_le_nat_alt unat_mul_day assms(1) by simp
  from unat_sub [OF this] have "unat (ms - ucast d * 86400000) = t"
    unfolding unat_mul_day assms(1) by simp
  moreover have "unat (ucast (ms - ucast d * 86400000) :: u32)
                   = unat (ms - ucast d * 86400000) mod 4294967296"
    by (simp add: unsigned_ucast_eq take_bit_eq_mod)
  ultimately show "unat (ucast (ms - ucast d * 86400000) :: u32) = t"
    using assms(2) by simp
qed

lemma time_of_day_fields:
  fixes rm :: u32
  assumes "unat rm = h * 3600000 + mi * 60000 + s * 1000" and "mi \<le> 59" and "s \<le> 59"
  shows "unat (rm mod 1000) = 0"
    and "unat ((rm div 1000) mod 60) = s"
    and "unat (((rm div 1000) div 60) mod 60) = mi"
    and "unat ((rm div 1000) div 3600) = h"
proof -
  note t = time_of_day_nat [OF assms(2,3), of h]
  have "unat (rm mod 1000) = unat rm mod 1000" by (simp add: unat_mod)
  then show "unat (rm mod 1000) = 0" by (simp only: assms(1) t(1))
  have rs: "unat (rm div 1000) = h * 3600 + mi * 60 + s"
  proof -
    have "unat (rm div 1000) = unat rm div 1000" by (simp add: unat_div)
    then show ?thesis by (simp only: assms(1) t(2))
  qed
  have "unat ((rm div 1000) mod 60) = unat (rm div 1000) mod 60" by (simp add: unat_mod)
  then show "unat ((rm div 1000) mod 60) = s" by (simp only: rs t(3))
  have "unat (((rm div 1000) div 60) mod 60) = unat (rm div 1000) div 60 mod 60"
    by (simp add: unat_mod unat_div)
  then show "unat (((rm div 1000) div 60) mod 60) = mi" by (simp only: rs t(4))
  have "unat ((rm div 1000) div 3600) = unat (rm div 1000) div 3600"
    by (simp add: unat_div)
  then show "unat ((rm div 1000) div 3600) = h" by (simp only: rs t(5))
qed

text \<open>
  Claim C10. For every calendar date and time with year in \<open>1970..2500\<close>, month in
  \<open>1..12\<close>, day in \<open>1..getDaysInMonth month year\<close>, hour in \<open>0..23\<close>, minute and
  second in \<open>0..59\<close>: \<open>dateToMs\<close> returns a timestamp, and \<open>toTimeStruct\<close> of that
  timestamp returns the same year, month, day, hour, minute and second, with
  millisecond 0 and weekday \<open>(d + 4) mod 7\<close>, where \<open>d\<close> is the day count of the date.
\<close>

theorem toTimeStruct_dateToMs:
  assumes "1970 \<le> unat year" and "unat year \<le> 2500"
    and "1 \<le> unat month" and "unat month \<le> 12"
    and "1 \<le> unat day" and "unat day \<le> unat (getDaysInMonth month year)"
    and "unat hour \<le> 23" and "unat minute \<le> 59" and "unat second \<le> 59"
  shows "\<exists>ms d. dateToMs year month day hour minute second = Some ms
               \<and> dateToDays year month day = Some d
               \<and> toTimeStruct ms = Some \<lparr>ts_year = year, ts_month = month, ts_day = day,
                     ts_hour = hour, ts_minute = minute, ts_second = second,
                     ts_ms = 0, ts_weekday = ucast ((d + 4) mod 7)\<rparr>"
proof -
  define n where "n = unat year - 1970"
  define Y where "Y = days_before_year n"
  define M where "M = days_before_month year (unat month)"
  define t where "t = unat hour * 3600000 + unat minute * 60000 + unat second * 1000"
  have n: "n \<le> 530" "unat year = n + 1970" using assms(1,2) by (simp_all add: n_def)
  obtain d where d: "dateToDays year month day = Some d" and ud1: "unat d + 1 = Y + M + unat day"
    using dateToDays_closed [OF assms(1-4), of day] assms(5) unfolding Y_def M_def n_def by auto
  have ud: "unat d = Y + M + (unat day - 1)" using ud1 assms(5) by linarith
  obtain ms where ms: "dateToMs year month day hour minute second = Some ms"
    and ums: "unat ms = unat d * 86400000 + t"
    using dateToMs_closed [OF d, of hour minute second] unfolding t_def by auto
  have tb: "t < 86400000" unfolding t_def using assms(7-9) by linarith
  note sp = toTimeStruct_split [OF ums tb]
  \<comment> \<open>the year\<close>
  have len: "days_before_month year (Suc (unat month)) \<le> days_before_month year 13"
    using assms(4) by (intro days_before_month_mono) simp
  have ylen: "days_before_year (Suc n) = Y + days_before_month year 13"
    unfolding days_before_year_Suc Y_def days_before_month_13 isLeapYear_leap_nat n(2) by simp
  have "M + unat (getDaysInMonth month year) \<le> days_before_month year 13"
    using len days_before_month_Suc [OF assms(3), of year] unfolding M_def by linarith
  then have lt: "unat d < days_before_year (Suc n)"
    unfolding ylen ud using assms(5,6) by linarith
  have ge: "days_before_year n \<le> unat d" unfolding ud Y_def by simp
  have "unat (yearFromDays d) = 1970 + n"
    by (rule yearFromDays_correct [OF ge lt n(1)])
  then have yfd: "yearFromDays d = year"
    using n(2) by (simp add: word_unat_eq_iff)
  \<comment> \<open>the day of the year\<close>
  let ?yo = "ucast year - 1970 :: u32"
  let ?base = "?yo * 365 + leaps_of ?yo"
  have yo: "unat ?yo = n" unfolding n_def by (rule year_offset_unat [OF assms(1)])
  have "unat ?yo \<le> 1000" using yo n by simp
  from leaps_of_unat [OF this] have ub: "unat ?base = Y" by (simp add: yo Y_def)
  have "?base \<le> d" unfolding word_le_nat_alt ub ud by simp
  from unat_sub [OF this] have udr: "unat (d - ?base) = M + (unat day - 1)"
    unfolding ub ud by simp
  have one: "unat (1 :: u8) = Suc 0" by simp
  have r: "unat day - 1 < unat (getDaysInMonth month year)" using assms(5,6) by linarith
  have "unat (d - ?base) = days_before_month year (unat month)
                             - days_before_month year (unat (1 :: u8)) + (unat day - 1)"
    unfolding udr M_def by simp
  from toTimeStruct_loop_closed [OF _ _ assms(4) r this] assms(3)
  have loop: "toTimeStruct_loop year 1 (d - ?base) = Some (month, of_nat (unat day - 1))"
    by simp
  have "unat (of_nat (unat day - 1) + 1 :: u32) = unat day"
  proof -
    have "(of_nat (unat day - 1) + 1 :: u32) = of_nat (unat day - 1 + 1)" by simp
    also have "unat \<dots> = unat day - 1 + 1"
    proof (rule unat_of_nat_u32)
      have "unat day < 256" using unsigned_less [of day] by simp
      then show "unat day - 1 + 1 < 4294967296" by linarith
    qed
    finally show ?thesis using assms(5) by simp
  qed
  then have "(ucast (of_nat (unat day - 1) + 1 :: u32) :: u8) = day"
    by (rule ucast_eq_u8)
  then have day: "(ucast (of_nat (unat day - Suc 0) + 1 :: u32) :: u8) = day"
    by simp
  \<comment> \<open>the time of day\<close>
  let ?rm = "ucast (ms - ucast d * 86400000) :: u32"
  have urm: "unat ?rm = unat hour * 3600000 + unat minute * 60000 + unat second * 1000"
    using sp(2) unfolding t_def .
  note tf = time_of_day_fields [OF urm assms(8,9)]
  have f_ms: "(ucast (?rm mod 1000) :: u16) = 0"
    by (rule ucast_eq_u16) (simp add: tf(1))
  have f_s: "(ucast ((?rm div 1000) mod 60) :: u8) = second"
    by (rule ucast_eq_u8) (rule tf(2))
  have f_m: "(ucast (((?rm div 1000) div 60) mod 60) :: u8) = minute"
    by (rule ucast_eq_u8) (rule tf(3))
  have f_h: "(ucast ((?rm div 1000) div 3600) :: u8) = hour"
    by (rule ucast_eq_u8) (rule tf(4))
  have "toTimeStruct ms = Some \<lparr>ts_year = year, ts_month = month, ts_day = day,
          ts_hour = hour, ts_minute = minute, ts_second = second,
          ts_ms = 0, ts_weekday = ucast ((d + 4) mod 7)\<rparr>"
    unfolding toTimeStruct_def Let_def sp(1) yfd loop
    by (simp add: day f_ms f_s f_m f_h getWeekdayFromDays_def)
  with ms d show ?thesis by blast
qed

theorem toTimeStruct_dateToMs_witness:
  "\<exists>ms d. dateToMs 2024 2 29 23 59 59 = Some ms
          \<and> dateToDays 2024 2 29 = Some d
          \<and> toTimeStruct ms = Some \<lparr>ts_year = 2024, ts_month = 2, ts_day = 29,
                ts_hour = 23, ts_minute = 59, ts_second = 59,
                ts_ms = 0, ts_weekday = ucast ((d + 4) mod 7)\<rparr>"
  using toTimeStruct_dateToMs [of 2024 2 29 23 59 59]
  by (simp add: getDaysInMonth_eval isLeapYear_def)

section \<open>Round trip outside the transition windows\<close>

lemma computeDstStartMs_total:
  assumes "1 \<le> unat (dst_start_month tz)" and "unat (dst_start_month tz) \<le> 12"
    and "unat (dst_weekday tz) \<le> 6"
  shows "\<exists>v. computeDstStartMs year tz = Some v"
proof -
  obtain sd n where "getDstSwitchDay_counted year (dst_start_month tz) tz True = Some (sd, n)"
    using getDstSwitchDay_counted_total [OF assms] by blast
  then have sd: "getDstSwitchDay year (dst_start_month tz) tz True = Some sd"
    by (simp add: getDstSwitchDay_def)
  obtain d where d: "dateToDays year (dst_start_month tz) sd = Some d"
    using dateToDays_total [of "dst_start_month tz" year sd] assms(2) by auto
  obtain ms where "dateToMs year (dst_start_month tz) sd (dst_start_hour tz) 0 0 = Some ms"
    using dateToMs_closed [OF d] by blast
  with sd show ?thesis by (simp add: computeDstStartMs_def)
qed

lemma computeDstEndMs_total:
  assumes "1 \<le> unat (dst_end_month tz)" and "unat (dst_end_month tz) \<le> 12"
    and "unat (dst_weekday tz) \<le> 6"
  shows "\<exists>v. computeDstEndMs year tz = Some v"
proof -
  obtain sd n where "getDstSwitchDay_counted year (dst_end_month tz) tz False = Some (sd, n)"
    using getDstSwitchDay_counted_total [OF assms] by blast
  then have sd: "getDstSwitchDay year (dst_end_month tz) tz False = Some sd"
    by (simp add: getDstSwitchDay_def)
  obtain d where d: "dateToDays year (dst_end_month tz) sd = Some d"
    using dateToDays_total [of "dst_end_month tz" year sd] assms(2) by auto
  obtain ms where "dateToMs year (dst_end_month tz) sd (dst_end_hour tz) 0 0 = Some ms"
    using dateToMs_closed [OF d] by blast
  with sd show ?thesis by (simp add: computeDstEndMs_def)
qed

text \<open>What the miss path returns, given the transitions of the year.\<close>

lemma cache_miss_Some:
  assumes "1 \<le> unat (dst_start_month tz)" and "unat (dst_start_month tz) \<le> 12"
    and "1 \<le> unat (dst_end_month tz)" and "unat (dst_end_month tz) \<le> 12"
    and "unat (dst_weekday tz) \<le> 6"
    and "computeDstTransitions (yearFromMs ms) tz = Some (S, E)"
  shows "\<exists>c. cache_miss ms tz = Some (S, E, c)
             \<and> current_offset c =
                 (if S < E then (if ms < S then offset_min tz
                                 else if ms < E then offset_dst_min tz else offset_min tz)
                  else (if ms < E then offset_dst_min tz
                        else if ms < S then offset_min tz else offset_dst_min tz))"
proof -
  note st = computeDstStartMs_total [OF assms(1,2,5)]
  note en = computeDstEndMs_total [OF assms(3,4,5)]
  obtain a where a: "computeDstEndMs (yearFromMs ms - 1) tz = Some a" using en by blast
  obtain b where b: "computeDstStartMs (yearFromMs ms + 1) tz = Some b" using st by blast
  obtain c where c: "computeDstStartMs (yearFromMs ms - 1) tz = Some c" using st by blast
  obtain d where d: "computeDstEndMs (yearFromMs ms + 1) tz = Some d" using en by blast
  show ?thesis
    using assms(6) a b c d by (auto simp: cache_miss_def Let_def mk_cache_def)
qed

lemma offset_ms_range: "- 1966080000 \<le> sint (x :: i16) * 60000 \<and> sint x * 60000 \<le> 1966020000"
proof -
  have "- (2 ^ (LENGTH(16) - 1)) \<le> sint x" by (rule sint_ge)
  moreover have "sint x < 2 ^ (LENGTH(16) - 1)" by (rule sint_lt)
  ultimately show ?thesis by simp
qed

lemma uint_word_of_int_u64: "0 \<le> k \<Longrightarrow> k < 18446744073709551616 \<Longrightarrow> uint (word_of_int k :: u64) = k"
  by (simp add: uint_word_of_int)

lemma uint_offset:
  fixes x :: u64
  assumes "2147483648 \<le> uint x" and "uint x < 9223372036854775808"
  shows "uint (x + offset_ms off) = uint x + sint off * 60000"
    and "uint (x - offset_ms off) = uint x - sint off * 60000"
proof -
  note r = offset_ms_range [of off]
  have "x + offset_ms off = word_of_int (uint x + sint off * 60000)"
    by (simp add: offset_ms_def)
  moreover have "uint (word_of_int (uint x + sint off * 60000) :: u64) = uint x + sint off * 60000"
    using assms r by (intro uint_word_of_int_u64) linarith+
  ultimately show "uint (x + offset_ms off) = uint x + sint off * 60000" by simp
  have "x - offset_ms off = word_of_int (uint x - sint off * 60000)"
    by (simp add: offset_ms_def)
  moreover have "uint (word_of_int (uint x - sint off * 60000) :: u64) = uint x - sint off * 60000"
    using assms r by (intro uint_word_of_int_u64) linarith+
  ultimately show "uint (x - offset_ms off) = uint x - sint off * 60000" by simp
qed

lemma days_before_year_1: "days_before_year 0 = 0" "days_before_year (Suc 0) = 365"
  by (simp_all add: days_before_year_def)

lemma dateToMs_bounds:
  assumes "1971 \<le> unat year" and "unat year \<le> 2500"
    and "1 \<le> unat month" and "unat month \<le> 12"
    and "dateToMs year month day hour minute second = Some ms"
  shows "2147483648 \<le> uint ms \<and> uint ms < 9223372036854775808"
proof -
  have y: "1970 \<le> unat year" using assms(1) by simp
  have "Suc 0 \<le> unat year - 1970" using assms(1) by simp
  from days_before_year_mono [OF this]
  have g: "365 \<le> days_before_year (unat year - 1970)" by (simp add: days_before_year_1)
  then have "1 \<le> days_before_year (unat year - 1970)
                   + days_before_month year (unat month) + unat day" by linarith
  from dateToDays_closed [OF y assms(2-4) this]
  obtain d where d: "dateToDays year month day = Some d"
    and ud: "unat d + 1 = days_before_year (unat year - 1970)
                           + days_before_month year (unat month) + unat day"
    by blast
  from ud g have lo: "364 \<le> unat d" by linarith
  have hi: "unat d < 4294967296" using unsigned_less [of d] by simp
  have b: "unat hour < 256" "unat minute < 256" "unat second < 256"
    using unsigned_less [of hour] unsigned_less [of minute] unsigned_less [of second] by simp_all
  from dateToMs_closed [OF d, of hour minute second] assms(5)
  have "unat ms = unat d * 86400000 + unat hour * 3600000
                   + unat minute * 60000 + unat second * 1000" by simp
  with lo hi b have "2147483648 \<le> unat ms \<and> unat ms < 9223372036854775808"
    by linarith
  then show ?thesis using uint_nat [of ms] by linarith
qed

text \<open>Under the months and weekday of a DST rule both transitions of every year exist.\<close>

lemma computeDstTransitions_total:
  assumes "1 \<le> unat (dst_start_month tz)" and "unat (dst_start_month tz) \<le> 12"
    and "1 \<le> unat (dst_end_month tz)" and "unat (dst_end_month tz) \<le> 12"
    and "unat (dst_weekday tz) \<le> 6"
  shows "\<exists>S E. computeDstTransitions year tz = Some (S, E)"
proof -
  obtain S where "computeDstStartMs year tz = Some S"
    using computeDstStartMs_total [OF assms(1,2,5)] by blast
  moreover obtain E where "computeDstEndMs year tz = Some E"
    using computeDstEndMs_total [OF assms(3,4,5)] by blast
  ultimately show ?thesis by (simp add: computeDstTransitions_def)
qed

text \<open>
  A transition is the local switch instant minus the offset, in unsigned 64-bit
  arithmetic. From 1971 on the local switch instant exceeds every offset, so that the
  subtraction does not wrap around zero.
\<close>

lemma computeDstStartMs_no_wrap:
  assumes "1971 \<le> unat year" and "unat year \<le> 2500"
    and "1 \<le> unat (dst_start_month tz)" and "unat (dst_start_month tz) \<le> 12"
    and "computeDstStartMs year tz = Some S"
  shows "sint (offset_min tz) * 60000 \<le> uint (S + offset_ms (offset_min tz))"
proof -
  from assms(5) obtain sd L
    where L: "dateToMs year (dst_start_month tz) sd (dst_start_hour tz) 0 0 = Some L"
      and S: "S = L - offset_ms (offset_min tz)"
    by (auto simp: computeDstStartMs_def split: option.splits)
  have "S + offset_ms (offset_min tz) = L" unfolding S by simp
  with dateToMs_bounds [OF assms(1-4) L] offset_ms_range [of "offset_min tz"]
  show ?thesis by simp
qed

lemma computeDstEndMs_no_wrap:
  assumes "1971 \<le> unat year" and "unat year \<le> 2500"
    and "1 \<le> unat (dst_end_month tz)" and "unat (dst_end_month tz) \<le> 12"
    and "computeDstEndMs year tz = Some E"
  shows "sint (offset_dst_min tz) * 60000 \<le> uint (E + offset_ms (offset_dst_min tz))"
proof -
  from assms(5) obtain sd L
    where L: "dateToMs year (dst_end_month tz) sd (dst_end_hour tz) 0 0 = Some L"
      and E: "E = L - offset_ms (offset_dst_min tz)"
    by (auto simp: computeDstEndMs_def split: option.splits)
  have "E + offset_ms (offset_dst_min tz) = L" unfolding E by simp
  with dateToMs_bounds [OF assms(1-4) L] offset_ms_range [of "offset_dst_min tz"]
  show ?thesis by simp
qed





















































section \<open>A rule of the southern hemisphere\<close>

lemma tdAEST_hours_transitions:
  fixes h1 h2 :: u8
  defines "tz \<equiv> tdAEST\<lparr>dst_start_hour := h1, dst_end_hour := h2\<rparr>"
  shows "\<exists>S E. computeDstTransitions 2024 tz = Some (S, E)
              \<and> uint S = 1728136800000 + uint h1 * 3600000
              \<and> uint E = 1712408400000 + uint h2 * 3600000"
proof -
  have b: "unat h1 < 256" "unat h2 < 256"
    using unsigned_less [of h1] unsigned_less [of h2] by simp_all
  have sd: "getDstSwitchDay 2024 10 tz True = Some 6"
    apply (simp add: switch_eval tz_def tdAEST_def cal_eval)
    apply (simp add: forward_scan.simps)
    done
  have ed: "getDstSwitchDay 2024 4 tz False = Some 7"
    apply (simp add: switch_eval tz_def tdAEST_def cal_eval)
    apply (simp add: forward_scan.simps)
    done
  have d1: "dateToDays 2024 10 6 = Some 20002" and d2: "dateToDays 2024 4 7 = Some 19820"
    by (simp_all add: cal_eval)
  obtain L1 where L1: "dateToMs 2024 10 6 h1 0 0 = Some L1"
    and u1: "unat L1 = 20002 * 86400000 + unat h1 * 3600000"
    using dateToMs_closed [OF d1, of h1 0 0] by auto
  obtain L2 where L2: "dateToMs 2024 4 7 h2 0 0 = Some L2"
    and u2: "unat L2 = 19820 * 86400000 + unat h2 * 3600000"
    using dateToMs_closed [OF d2, of h2 0 0] by auto
  have i1: "uint L1 = 1728172800000 + uint h1 * 3600000"
    using u1 uint_nat [of L1] uint_nat [of h1] by linarith
  have i2: "uint L2 = 1712448000000 + uint h2 * 3600000"
    using u2 uint_nat [of L2] uint_nat [of h2] by linarith
  have hb: "0 \<le> uint h1" "uint h1 < 256" "0 \<le> uint h2" "uint h2 < 256"
    using b uint_nat [of h1] uint_nat [of h2] by linarith+
  have f: "dst_start_month tz = 10" "dst_end_month tz = 4" "dst_start_hour tz = h1"
    "dst_end_hour tz = h2" "offset_min tz = 600" "offset_dst_min tz = 660"
    by (simp_all add: tz_def tdAEST_def)
  have s600: "sint (600 :: i16) = 600" and s660: "sint (660 :: i16) = 660" by simp_all
  have r1: "2147483648 \<le> uint L1" "uint L1 < 9223372036854775808"
    and r2: "2147483648 \<le> uint L2" "uint L2 < 9223372036854775808"
    using i1 i2 hb by linarith+
  have S: "uint (L1 - offset_ms 600) = uint L1 - 600 * 60000"
    using uint_offset(2) [OF r1, of 600] by (simp only: s600)
  have E: "uint (L2 - offset_ms 660) = uint L2 - 660 * 60000"
    using uint_offset(2) [OF r2, of 660] by (simp only: s660)
  have "computeDstTransitions 2024 tz = Some (L1 - offset_ms 600, L2 - offset_ms 660)"
    by (simp add: computeDstTransitions_def computeDstStartMs_def computeDstEndMs_def f sd ed L1 L2)
  with S E i1 i2 show ?thesis by simp
qed

text \<open>
  Claim C7. For the rule \<open>tdAEST\<close> (start: October, 1st Sunday, standard offset +600;
  end: April, 1st Sunday, DST offset +660) the UTC resolver, starting from an empty
  cache, returns +660 minutes at 2024-01-01T00:00:00 UTC and +600 minutes at
  2024-07-01T00:00:00 UTC. The claim does not fix the switch hours: the result holds
  for the hours of the header (02:00 and 03:00) and for every other pair of hours.
\<close>

theorem tdAEST_offsets_2024:
  "dateToMs 2024 1 1 0 0 0 = Some 1704067200000
   \<and> map_option fst (getOffsetForUtc 1704067200000 tdAEST empty_cache) = Some 660
   \<and> map_option fst (getOffsetForUtc 1704067200000
         (tdAEST\<lparr>dst_start_hour := h1, dst_end_hour := h2\<rparr>) empty_cache) = Some 660
   \<and> dateToMs 2024 7 1 0 0 0 = Some 1719792000000
   \<and> map_option fst (getOffsetForUtc 1719792000000 tdAEST empty_cache) = Some 600
   \<and> map_option fst (getOffsetForUtc 1719792000000
         (tdAEST\<lparr>dst_start_hour := h1, dst_end_hour := h2\<rparr>) empty_cache) = Some 600
   \<and> sint (660 :: i16) = 660 \<and> sint (600 :: i16) = 600"
proof -
  define tz where "tz = tdAEST\<lparr>dst_start_hour := h1, dst_end_hour := h2\<rparr>"
  have f: "unat (dst_start_month tz) = 10" "unat (dst_end_month tz) = 4"
    "unat (dst_weekday tz) = 0" "dst_start_month tz \<noteq> 0"
    "offset_min tz = 600" "offset_dst_min tz = 660"
    by (simp_all add: tz_def tdAEST_def)
  obtain S E where tr: "computeDstTransitions 2024 tz = Some (S, E)"
    and S: "uint S = 1728136800000 + uint h1 * 3600000"
    and E: "uint E = 1712408400000 + uint h2 * 3600000"
    using tdAEST_hours_transitions [of h2 h1] unfolding tz_def by blast
  have hb: "unat h1 < 256" "unat h2 < 256"
    using unsigned_less [of h1] unsigned_less [of h2] by simp_all
  have S': "unat S = 1728136800000 + unat h1 * 3600000"
    using S uint_nat [of S] uint_nat [of h1] by linarith
  have E': "unat E = 1712408400000 + unat h2 * 3600000"
    using E uint_nat [of E] uint_nat [of h2] by linarith
  have nohit: "\<not> cache_hit x empty_cache" for x
    by (simp add: cache_hit_def empty_cache_def)
  have SE: "\<not> S < E" unfolding word_less_nat_alt S' E' using hb by linarith
  have jan: "(1704067200000 :: u64) < E"
    unfolding word_less_nat_alt E' using hb by simp
  have jul: "\<not> (1719792000000 :: u64) < E" "(1719792000000 :: u64) < S"
    unfolding word_less_nat_alt S' E' using hb by simp_all
  have "computeDstTransitions (yearFromMs 1704067200000) tz = Some (S, E)"
    using tr by (simp add: yearFromMs_jan2024)
  from cache_miss_Some [OF _ _ _ _ _ this]
  obtain c1 where "cache_miss 1704067200000 tz = Some (S, E, c1)" "current_offset c1 = 660"
    using f SE jan by auto
  then have g1: "map_option fst (getOffsetForUtc 1704067200000 tz empty_cache) = Some 660"
    using f(4) nohit by (simp add: getOffsetForUtc_def)
  have "computeDstTransitions (yearFromMs 1719792000000) tz = Some (S, E)"
    using tr by (simp add: yearFromMs_jul2024)
  from cache_miss_Some [OF _ _ _ _ _ this]
  obtain c2 where "cache_miss 1719792000000 tz = Some (S, E, c2)" "current_offset c2 = 600"
    using f SE jul by auto
  then have g2: "map_option fst (getOffsetForUtc 1719792000000 tz empty_cache) = Some 600"
    using f(4) nohit by (simp add: getOffsetForUtc_def)
  have "dateToMs 2024 1 1 0 0 0 = Some 1704067200000"
    and "dateToMs 2024 7 1 0 0 0 = Some 1719792000000"
    by (simp_all add: cal_eval)
  with g1 g2 show ?thesis
    unfolding tz_def by (simp add: tdAEST_jan2024 tdAEST_jul2024)
qed

end
